theory Spec2Isabelle
  imports Main "HOL-Library.Char_ord" "HOL-Library.List_Lexorder" "HOL-Library.Sublist"
    "HOL-Library.Multiset"
begin

section \<open>Python strings\<close>

text \<open>
  A Python \<open>str\<close> is a sequence of code points and \<open>len\<close> counts code points. The model
  takes a string to be a \<open>char list\<close> whose elements are the code points U+0000 .. U+00FF
  (\<open>ord\<close> reads the code point). All character classes below are CPython's tables
  restricted to that range; code points above U+00FF are outside the model.
\<close>

definition ord :: "char \<Rightarrow> nat" where
  "ord c = of_char c"

text \<open>\<open>str.isspace\<close> / \<open>Py_UNICODE_ISSPACE\<close>: the characters \<open>str.split()\<close>, \<open>str.strip()\<close>,
  \<open>int()\<close> and the regular expression class \<open>\s\<close> treat as whitespace.\<close>

definition isspace :: "char \<Rightarrow> bool" where
  "isspace c = (let n = ord c in (9 \<le> n \<and> n \<le> 13) \<or> (28 \<le> n \<and> n \<le> 32) \<or> n = 133 \<or> n = 160)"

text \<open>\<open>content.split()\<close>: split at runs of whitespace, no empty words.\<close>

function split_ws :: "string \<Rightarrow> string list" where
  "split_ws s =
     (case dropWhile isspace s of
        [] \<Rightarrow> []
      | c # cs \<Rightarrow> (c # takeWhile (\<lambda>x. \<not> isspace x) cs) # split_ws (dropWhile (\<lambda>x. \<not> isspace x) cs))"
  by pat_completeness auto
termination
proof (relation "measure length")
  show "wf (measure length)" by simp
next
  fix s :: string and c cs
  assume h: "dropWhile isspace s = c # cs"
  have "length (dropWhile (\<lambda>x. \<not> isspace x) cs) \<le> length cs"
    by (rule length_dropWhile_le)
  moreover have "length (c # cs) \<le> length s"
    using length_dropWhile_le [of isspace s] h by simp
  ultimately show "(dropWhile (\<lambda>x. \<not> isspace x) cs, s) \<in> measure length"
    by simp
qed

declare split_ws.simps [simp del]

text \<open>\<open>s.strip()\<close>: whitespace removed at both ends.\<close>

definition strip :: "string \<Rightarrow> string" where
  "strip s = rev (dropWhile isspace (rev (dropWhile isspace s)))"

text \<open>\<open>sep.join(words)\<close>.\<close>

fun join :: "string \<Rightarrow> string list \<Rightarrow> string" where
  "join sep [] = []"
| "join sep [w] = w"
| "join sep (w # v # ws) = w @ sep @ join sep (v # ws)"

text \<open>\<open>s.rfind(c)\<close> for a one-character needle: the highest index of \<open>c\<close>, or \<open>-1\<close>.\<close>

fun rfind :: "string \<Rightarrow> char \<Rightarrow> int" where
  "rfind [] c = - 1"
| "rfind (x # xs) c =
     (let r = rfind xs c in if 0 \<le> r then r + 1 else if x = c then 0 else - 1)"

text \<open>The slice \<open>s[:k]\<close>; a negative \<open>k\<close> counts from the end.\<close>

definition slice_to :: "string \<Rightarrow> int \<Rightarrow> string" where
  "slice_to s k = (if 0 \<le> k then take (nat k) s else take (nat (int (length s) + k)) s)"

section \<open>Excerpt generation (\<open>Blog._generate_excerpt\<close>)\<close>

definition generate_excerpt :: "string \<Rightarrow> string" where
  "generate_excerpt content =
     (let clean_content = join '' '' (split_ws content) in
      if length clean_content \<le> 150 then clean_content
      else
        let excerpt = slice_to clean_content 150;
            last_period = rfind excerpt CHR ''.'';
            last_exclamation = rfind excerpt CHR ''!'';
            last_question = rfind excerpt CHR ''?'';
            last_sentence_end = max last_period (max last_exclamation last_question)
        in if last_sentence_end > 100 then slice_to excerpt (last_sentence_end + 1)
           else
             let last_space = rfind excerpt CHR '' '' in
             if last_space > 0 then slice_to excerpt last_space @ ''...''
             else excerpt @ ''...'')"

text \<open>The first line of the source, \<open>' '.join(content.split())\<close>, by the name the source
  gives its value.\<close>

definition clean_content :: "string \<Rightarrow> string" where
  "clean_content content = join '' '' (split_ws content)"

text \<open>
  The excerpt as the specification words it. Step 1, ``collapse all whitespace runs to
  single spaces'', is \<open>collapse_runs\<close>: a whitespace character followed by another one is
  dropped, and the last one of a run becomes a space. It leaves a space where the content
  begins or ends with whitespace. \<open>collapsed\<close> is the collapsed content without the
  whitespace at its two ends. \<open>rightmost P w\<close> is the rightmost index of \<open>w\<close> whose
  character satisfies \<open>P\<close>, if there is one.
\<close>

fun collapse_runs :: "string \<Rightarrow> string" where
  "collapse_runs [] = []"
| "collapse_runs [c] = [if isspace c then CHR '' '' else c]"
| "collapse_runs (c # d # cs) =
     (if isspace c \<and> isspace d then collapse_runs (d # cs)
      else (if isspace c then CHR '' '' else c) # collapse_runs (d # cs))"

fun rightmost :: "(char \<Rightarrow> bool) \<Rightarrow> string \<Rightarrow> nat option" where
  "rightmost P [] = None"
| "rightmost P (x # xs) =
     (case rightmost P xs of Some i \<Rightarrow> Some (Suc i) | None \<Rightarrow> if P x then Some 0 else None)"

definition collapsed :: "string \<Rightarrow> string" where
  "collapsed content = strip (collapse_runs content)"

definition sentence_end :: "char \<Rightarrow> bool" where
  "sentence_end c = (c = CHR ''.'' \<or> c = CHR ''!'' \<or> c = CHR ''?'')"

definition cut_at_space :: "string \<Rightarrow> string" where
  "cut_at_space window =
     (case rightmost (\<lambda>c. c = CHR '' '') window of
        Some j \<Rightarrow> take j window @ ''...''
      | None \<Rightarrow> window @ ''...'')"

definition excerpt_spec :: "string \<Rightarrow> string" where
  "excerpt_spec content =
     (if length (collapsed content) \<le> 150 then collapsed content
      else
        let window = take 150 (collapsed content) in
        case rightmost sentence_end window of
          Some i \<Rightarrow> if i > 100 then take (Suc i) window else cut_at_space window
        | None \<Rightarrow> cut_at_space window)"


text \<open>The value Python gives an index search: the index, or \<open>-1\<close> when there is none.\<close>

definition idx :: "nat option \<Rightarrow> int" where
  "idx r = (case r of Some i \<Rightarrow> int i | None \<Rightarrow> - 1)"

section \<open>Slug generation (\<open>Blog._generate_slug\<close>)\<close>

text \<open>\<open>str.lower()\<close>, character by character: in the range of the model only the letters
  \<open>A-Z\<close> and U+00C0 .. U+00DE (without the multiplication sign U+00D7) have a lower-case
  form, 32 code points further on.\<close>

definition py_lower :: "char \<Rightarrow> char" where
  "py_lower c =
     (let n = ord c in
      if (65 \<le> n \<and> n \<le> 90) \<or> (192 \<le> n \<and> n \<le> 222 \<and> n \<noteq> 215) then char_of (n + 32) else c)"

definition lower :: "string \<Rightarrow> string" where
  "lower s = map py_lower s"

text \<open>The class \<open>\w\<close> of a \<open>str\<close> pattern: \<open>_\<close> and the alphanumeric characters
  (letters, decimal digits, and the characters with a digit or numeric value).\<close>

definition is_word :: "char \<Rightarrow> bool" where
  "is_word c =
     (let n = ord c in
      (48 \<le> n \<and> n \<le> 57) \<or> (65 \<le> n \<and> n \<le> 90) \<or> n = 95 \<or> (97 \<le> n \<and> n \<le> 122) \<or>
      n = 170 \<or> n = 178 \<or> n = 179 \<or> n = 181 \<or> n = 185 \<or> n = 186 \<or> (188 \<le> n \<and> n \<le> 190) \<or>
      (192 \<le> n \<and> n \<le> 214) \<or> (216 \<le> n \<and> n \<le> 246) \<or> (248 \<le> n \<and> n \<le> 255))"

text \<open>\<open>re.sub(r'[^\w\s-]', '', s)\<close>: delete every character outside the class.\<close>

definition slug_char :: "char \<Rightarrow> bool" where
  "slug_char c = (is_word c \<or> isspace c \<or> c = CHR ''-'')"

definition strip_non_slug :: "string \<Rightarrow> string" where
  "strip_non_slug s = filter slug_char s"

text \<open>\<open>re.sub(r'[-\s]+', '-', s)\<close>: every maximal run of hyphens and whitespace becomes
  one hyphen.\<close>

definition is_sep :: "char \<Rightarrow> bool" where
  "is_sep c = (c = CHR ''-'' \<or> isspace c)"

function hyphenate :: "string \<Rightarrow> string" where
  "hyphenate [] = []"
| "hyphenate (c # cs) =
     (if is_sep c then CHR ''-'' # hyphenate (dropWhile is_sep cs) else c # hyphenate cs)"
  by pat_completeness auto
termination
proof (relation "measure length")
  show "wf (measure length)" by simp
next
  fix c :: char and cs :: string
  show "(dropWhile is_sep cs, c # cs) \<in> measure length"
    using length_dropWhile_le [of is_sep cs] by simp
next
  fix c :: char and cs :: string
  show "(cs, c # cs) \<in> measure length" by simp
qed

definition generate_slug :: "string \<Rightarrow> string" where
  "generate_slug title =
     (let slug = strip_non_slug (lower title);
          slug = hyphenate slug
      in slice_to slug 50)"

text \<open>A string without whitespace and without two hyphens in a row.\<close>

fun single :: "string \<Rightarrow> bool" where
  "single [] = True"
| "single [c] = (\<not> isspace c)"
| "single (c # d # cs) = (\<not> isspace c \<and> \<not> (c = CHR ''-'' \<and> d = CHR ''-'') \<and> single (d # cs))"

section \<open>The data model (\<open>models/blog.py\<close>)\<close>

text \<open>
  The two tables. The primary keys \<open>Author.id\<close> and \<open>Blog.id\<close> are the fields \<open>a_id\<close> and
  \<open>b_id\<close>, the author's time stamps are \<open>a_created_at\<close> and \<open>a_updated_at\<close>; every other
  field has the column's name. A time stamp is a point of the clock, counted in ticks. A
  store lists the rows of each table in the order in which the storage engine scans them.
\<close>

record author =
  a_id :: int
  name :: string
  email :: string
  bio :: "string option"
  avatar_url :: "string option"
  a_created_at :: nat
  a_updated_at :: nat

record blog =
  b_id :: int
  title :: string
  content :: string
  date :: string
  slug :: string
  excerpt :: string
  featured :: bool
  published :: bool
  view_count :: int
  like_count :: int
  created_at :: nat
  updated_at :: nat
  author_id :: int

record store =
  authors :: "author list"
  blogs :: "blog list"

section \<open>Counters (\<open>Blog.increment_view_count\<close> and siblings)\<close>

text \<open>
  \<open>db.session.commit()\<close> after a change to a loaded blog writes the object over its row; the
  \<open>before_update\<close> listener sets \<open>updated_at\<close> to the time of the commit. Each method
  returns the object as it is afterwards and the store.
\<close>

definition commit_blog :: "nat \<Rightarrow> blog \<Rightarrow> store \<Rightarrow> blog \<times> store" where
  "commit_blog now b st =
     (let b' = b\<lparr>updated_at := now\<rparr>
      in (b', st\<lparr>blogs := map (\<lambda>r. if b_id r = b_id b' then b' else r) (blogs st)\<rparr>))"

definition increment_view_count :: "nat \<Rightarrow> blog \<Rightarrow> store \<Rightarrow> blog \<times> store" where
  "increment_view_count now b st = commit_blog now (b\<lparr>view_count := view_count b + 1\<rparr>) st"

definition increment_like_count :: "nat \<Rightarrow> blog \<Rightarrow> store \<Rightarrow> blog \<times> store" where
  "increment_like_count now b st = commit_blog now (b\<lparr>like_count := like_count b + 1\<rparr>) st"

definition decrement_like_count :: "nat \<Rightarrow> blog \<Rightarrow> store \<Rightarrow> blog \<times> store" where
  "decrement_like_count now b st =
     (if like_count b > 0 then commit_blog now (b\<lparr>like_count := like_count b - 1\<rparr>) st
      else (b, st))"

text \<open>The invariant of the counters, on one blog and on every row of a store.\<close>

definition counters_ok :: "blog \<Rightarrow> bool" where
  "counters_ok b = (0 \<le> view_count b \<and> 0 \<le> like_count b)"

definition store_counters_ok :: "store \<Rightarrow> bool" where
  "store_counters_ok st = list_all counters_ok (blogs st)"

section \<open>Numbers and dates\<close>

text \<open>The decimal digits of the model's range, the class \<open>\d\<close>.\<close>

definition is_digit :: "char \<Rightarrow> bool" where
  "is_digit c = (48 \<le> ord c \<and> ord c \<le> 57)"

definition digit_val :: "char \<Rightarrow> int" where
  "digit_val c = int (ord c) - 48"

definition digit_char :: "int \<Rightarrow> char" where
  "digit_char n = char_of (nat (48 + n))"

text \<open>
  \<open>int(s)\<close> for a string: whitespace around the literal is dropped (the characters \<open>int\<close>
  accepts there are those of \<open>isspace\<close> except U+001C .. U+001F), then come an optional sign
  and decimal digits, where single underscores may stand between digits. Anything else is a
  \<open>ValueError\<close>, here \<open>None\<close>. The interpreter's limit on the number of digits is not part
  of the model.
\<close>

definition int_space :: "char \<Rightarrow> bool" where
  "int_space c = (isspace c \<and> \<not> (28 \<le> ord c \<and> ord c \<le> 31))"

fun digits_ok :: "string \<Rightarrow> bool" where
  "digits_ok [] = False"
| "digits_ok [c] = is_digit c"
| "digits_ok (c # d # cs) =
     (is_digit c \<and> (if d = CHR ''_'' then digits_ok cs else digits_ok (d # cs)))"

definition decimal_value :: "string \<Rightarrow> int" where
  "decimal_value s = foldl (\<lambda>acc c. 10 * acc + digit_val c) 0 (filter (\<lambda>c. c \<noteq> CHR ''_'') s)"

definition py_int :: "string \<Rightarrow> int option" where
  "py_int s =
     (let t = rev (dropWhile int_space (rev (dropWhile int_space s))) in
      case t of
        [] \<Rightarrow> None
      | c # cs \<Rightarrow>
          if c = CHR ''-'' then (if digits_ok cs then Some (- decimal_value cs) else None)
          else if c = CHR ''+'' then (if digits_ok cs then Some (decimal_value cs) else None)
          else if digits_ok t then Some (decimal_value t) else None)"

text \<open>The decimal digits of a number that is not negative, \<open>str(n)\<close>, and \<open>s.zfill(width)\<close>
  for a string of digits.\<close>

function show_dec :: "int \<Rightarrow> string" where
  "show_dec n = (if n < 10 then [digit_char n] else show_dec (n div 10) @ [digit_char (n mod 10)])"
  by pat_completeness auto
termination
  by (relation "measure nat") auto

declare show_dec.simps [simp del]

definition str_int :: "int \<Rightarrow> string" where
  "str_int n = (if n < 0 then CHR ''-'' # show_dec (- n) else show_dec n)"

definition zfill :: "nat \<Rightarrow> string \<Rightarrow> string" where
  "zfill width s = replicate (width - length s) CHR ''0'' @ s"

text \<open>\<open>datetime(year, month, day)\<close>: a \<open>ValueError\<close> (here \<open>None\<close>) outside the years 1 to
  9999, the months 1 to 12 and the days of the month.\<close>

record datetime_obj =
  year :: int
  month :: int
  day :: int

definition is_leap :: "int \<Rightarrow> bool" where
  "is_leap y = (y mod 4 = 0 \<and> (y mod 100 \<noteq> 0 \<or> y mod 400 = 0))"

definition days_in_month :: "int \<Rightarrow> int \<Rightarrow> int" where
  "days_in_month y m =
     (if m = 2 then (if is_leap y then 29 else 28)
      else if m = 4 \<or> m = 6 \<or> m = 9 \<or> m = 11 then 30 else 31)"

definition datetime :: "int \<Rightarrow> int \<Rightarrow> int \<Rightarrow> datetime_obj option" where
  "datetime y m d =
     (if 1 \<le> y \<and> y \<le> 9999 \<and> 1 \<le> m \<and> m \<le> 12 \<and> 1 \<le> d \<and> d \<le> days_in_month y m
      then Some \<lparr>year = y, month = m, day = d\<rparr> else None)"

subsection \<open>\<open>strftime\<close>\<close>

text \<open>
  \<open>%d\<close> and \<open>%m\<close> are two digits, \<open>%B\<close> is the month's English name (the \<open>C\<close> locale).
  \<open>%Y\<close> is the year in decimal; for a year below 1000 the C library decides whether it is
  filled with zeros to four digits (as Python documents) or not (as glibc does, which prints
  the year 5 as \<open>5\<close>). The flag \<open>pad\<close> says which: it is a parameter of every function that
  formats a date.
\<close>

definition month_names :: "string list" where
  "month_names = [''January'', ''February'', ''March'', ''April'', ''May'', ''June'', ''July'',
     ''August'', ''September'', ''October'', ''November'', ''December'']"

definition pct_d :: "datetime_obj \<Rightarrow> string" where
  "pct_d dt = zfill 2 (str_int (day dt))"

definition pct_m :: "datetime_obj \<Rightarrow> string" where
  "pct_m dt = zfill 2 (str_int (month dt))"

definition pct_Y :: "bool \<Rightarrow> datetime_obj \<Rightarrow> string" where
  "pct_Y pad dt = (if pad then zfill 4 (str_int (year dt)) else str_int (year dt))"

definition pct_B :: "datetime_obj \<Rightarrow> string" where
  "pct_B dt = month_names ! (nat (month dt) - 1)"

text \<open>\<open>strftime('%d-%m-%Y')\<close> and \<open>strftime('%B %d, %Y')\<close>.\<close>

definition strftime_dmy :: "bool \<Rightarrow> datetime_obj \<Rightarrow> string" where
  "strftime_dmy pad dt = pct_d dt @ ''-'' @ pct_m dt @ ''-'' @ pct_Y pad dt"

definition strftime_long :: "bool \<Rightarrow> datetime_obj \<Rightarrow> string" where
  "strftime_long pad dt = pct_B dt @ '' '' @ pct_d dt @ '', '' @ pct_Y pad dt"

subsection \<open>\<open>datetime.strptime\<close>\<close>

text \<open>
  \<open>strptime\<close> turns the format into a regular expression, one group for each directive,
  takes the first match at the start of the string (\<open>re.match\<close>, alternatives tried from
  left to right with backtracking), fails when the match does not end the string, converts
  the groups with \<open>int\<close> and builds the date. The groups of the three directives used are
  \<open>%Y\<close>: \<open>\d\d\d\d\<close>; \<open>%m\<close>: \<open>1[0-2]|0[1-9]|[1-9]\<close>;
  \<open>%d\<close>: \<open>3[0-1]|[1-2]\d|0[1-9]|[1-9]| [1-9]\<close>. A format is the list of its
  directives and literal characters (here only \<open>-\<close> and \<open>/\<close>).
\<close>

datatype directive = Pct_Y | Pct_m | Pct_d | Lit char

definition char_in :: "char \<Rightarrow> char \<Rightarrow> char \<Rightarrow> bool" where
  "char_in lo hi c = (ord lo \<le> ord c \<and> ord c \<le> ord hi)"

fun alternatives :: "directive \<Rightarrow> (char \<Rightarrow> bool) list list" where
  "alternatives Pct_Y = [[is_digit, is_digit, is_digit, is_digit]]"
| "alternatives Pct_m =
     [[(=) CHR ''1'', char_in CHR ''0'' CHR ''2''],
      [(=) CHR ''0'', char_in CHR ''1'' CHR ''9''],
      [char_in CHR ''1'' CHR ''9'']]"
| "alternatives Pct_d =
     [[(=) CHR ''3'', char_in CHR ''0'' CHR ''1''],
      [char_in CHR ''1'' CHR ''2'', is_digit],
      [(=) CHR ''0'', char_in CHR ''1'' CHR ''9''],
      [char_in CHR ''1'' CHR ''9''],
      [(=) CHR '' '', char_in CHR ''1'' CHR ''9'']]"
| "alternatives (Lit c) = [[(=) c]]"

text \<open>One alternative against the start of a string: the matched text and the rest.\<close>

fun match_classes :: "(char \<Rightarrow> bool) list \<Rightarrow> string \<Rightarrow> (string \<times> string) option" where
  "match_classes [] s = Some ([], s)"
| "match_classes (P # Ps) [] = None"
| "match_classes (P # Ps) (c # cs) =
     (if P c then map_option (\<lambda>(m, r). (c # m, r)) (match_classes Ps cs) else None)"

definition match_directive :: "directive \<Rightarrow> string \<Rightarrow> (string \<times> string) list" where
  "match_directive d s = List.map_filter (\<lambda>alt. match_classes alt s) (alternatives d)"

text \<open>All matches of a format at the start of a string, in the order in which backtracking
  finds them: the groups and the rest of the string.\<close>

fun re_match :: "directive list \<Rightarrow> string \<Rightarrow> ((directive \<times> string) list \<times> string) list" where
  "re_match [] s = [([], s)]"
| "re_match (d # ds) s =
     concat (map (\<lambda>(m, r). map (\<lambda>(gs, r'). ((d, m) # gs, r')) (re_match ds r))
                 (match_directive d s))"

definition group_value :: "(directive \<times> string) list \<Rightarrow> directive \<Rightarrow> int \<Rightarrow> int option" where
  "group_value gs d dflt = (case map_of gs d of None \<Rightarrow> Some dflt | Some t \<Rightarrow> py_int t)"

definition strptime :: "string \<Rightarrow> directive list \<Rightarrow> datetime_obj option" where
  "strptime date_string fmt =
     (case re_match fmt date_string of
        [] \<Rightarrow> None
      | (gs, rest) # _ \<Rightarrow>
          if rest \<noteq> [] then None
          else
            (case (group_value gs Pct_Y 1900, group_value gs Pct_m 1, group_value gs Pct_d 1) of
               (Some y, Some m, Some d) \<Rightarrow> datetime y m d
             | _ \<Rightarrow> None))"

subsection \<open>\<open>validate_date\<close> (\<open>app.py\<close>)\<close>

definition fmt_ymd :: "directive list" where
  "fmt_ymd = [Pct_Y, Lit CHR ''-'', Pct_m, Lit CHR ''-'', Pct_d]"

definition fmt_dmy :: "directive list" where
  "fmt_dmy = [Pct_d, Lit CHR ''-'', Pct_m, Lit CHR ''-'', Pct_Y]"

definition fmt_mdy :: "directive list" where
  "fmt_mdy = [Pct_m, Lit CHR ''/'', Pct_d, Lit CHR ''/'', Pct_Y]"

text \<open>The loop \<open>for fmt in [...]\<close>: the first format that parses decides; \<open>None\<close> after
  the last.\<close>

fun try_formats :: "bool \<Rightarrow> directive list list \<Rightarrow> string \<Rightarrow> string option" where
  "try_formats pad [] date_string = None"
| "try_formats pad (fmt # fmts) date_string =
     (case strptime date_string fmt of
        Some date_obj \<Rightarrow> Some (strftime_dmy pad date_obj)
      | None \<Rightarrow> try_formats pad fmts date_string)"

definition validate_date :: "bool \<Rightarrow> string \<Rightarrow> string option" where
  "validate_date pad date_string = try_formats pad [fmt_ymd, fmt_dmy, fmt_mdy] date_string"

subsection \<open>\<open>Blog.formatted_date\<close>\<close>

text \<open>\<open>s.split(sep)\<close> for a one-character separator.\<close>

function split_on :: "char \<Rightarrow> string \<Rightarrow> string list" where
  "split_on sep s =
     (case dropWhile (\<lambda>c. c \<noteq> sep) s of
        [] \<Rightarrow> [s]
      | _ # rest \<Rightarrow> takeWhile (\<lambda>c. c \<noteq> sep) s # split_on sep rest)"
  by pat_completeness auto
termination
proof (relation "measure (\<lambda>(sep, s). length s)")
  show "wf (measure (\<lambda>(sep, s). length s))" by simp
next
  fix sep :: char and s :: string and x rest
  assume "dropWhile (\<lambda>c. c \<noteq> sep) s = x # rest"
  then have "length (x # rest) \<le> length s"
    using length_dropWhile_le [of "\<lambda>c. c \<noteq> sep" s] by simp
  then show "((sep, rest), (sep, s)) \<in> measure (\<lambda>(sep, s). length s)" by simp
qed

declare split_on.simps [simp del]

text \<open>The property never raises: the unpacking of the three parts, the three \<open>int\<close> calls
  and \<open>datetime\<close> are inside \<open>try\<close>, and the bare \<open>except\<close> returns the stored string.\<close>

definition parse_stored :: "string \<Rightarrow> datetime_obj option" where
  "parse_stored s =
     (case split_on CHR ''-'' s of
        [d, m, y] \<Rightarrow>
          (case (py_int y, py_int m, py_int d) of
             (Some yv, Some mv, Some dv) \<Rightarrow> datetime yv mv dv
           | _ \<Rightarrow> None)
      | _ \<Rightarrow> None)"

definition formatted_date :: "bool \<Rightarrow> blog \<Rightarrow> string" where
  "formatted_date pad self =
     (case parse_stored (date self) of
        Some date_obj \<Rightarrow> strftime_long pad date_obj
      | None \<Rightarrow> date self)"

text \<open>The shape \<open>DD-MM-YYYY\<close>: ten characters, digits but for the two hyphens.\<close>

definition is_dd_mm_yyyy :: "string \<Rightarrow> bool" where
  "is_dd_mm_yyyy s =
     (length s = 10 \<and> s ! 2 = CHR ''-'' \<and> s ! 5 = CHR ''-'' \<and>
      list_all is_digit (take 2 s @ take 2 (drop 3 s) @ drop 6 s))"

text \<open>The ranges of the fields of a date that \<open>datetime\<close> accepts.\<close>

definition valid_date :: "datetime_obj \<Rightarrow> bool" where
  "valid_date dt =
     (1 \<le> year dt \<and> year dt \<le> 9999 \<and> 1 \<le> month dt \<and> month dt \<le> 12 \<and>
      1 \<le> day dt \<and> day dt \<le> 31)"

section \<open>Queries\<close>

text \<open>
  \<open>column.contains(s)\<close> of SQLAlchemy is the SQL expression
  \<open>column LIKE '%' || s || '%'\<close>, with no escape character. The application runs on SQLite
  (\<open>sqlite:///blog.db\<close>) and sets no \<open>case_sensitive_like\<close> pragma, so \<open>LIKE\<close> is SQLite's
  built-in one: in the pattern \<open>%\<close> stands for any run of characters and \<open>_\<close> for any one
  character, and two other characters match when they are equal or are the same ASCII
  letter in different case. SQLite reads the pattern and the column as C strings, that is
  up to their first NUL character (\<open>c_string\<close>), and it refuses a pattern of more than
  50000 bytes of UTF-8 with the error ``LIKE or GLOB pattern too complex''
  (\<open>too_complex\<close>; a code point of the model above U+007F takes two bytes).
\<close>

definition ascii_lower :: "char \<Rightarrow> char" where
  "ascii_lower c = (let n = ord c in if 65 \<le> n \<and> n \<le> 90 then char_of (n + 32) else c)"

definition like_char :: "char \<Rightarrow> char \<Rightarrow> bool" where
  "like_char p c = (p = c \<or> (ord p < 128 \<and> ord c < 128 \<and> ascii_lower p = ascii_lower c))"

fun like :: "string \<Rightarrow> string \<Rightarrow> bool" where
  "like [] [] = True"
| "like [] (c # cs) = False"
| "like (p # ps) [] = (p = CHR ''%'' \<and> like ps [])"
| "like (p # ps) (c # cs) =
     (if p = CHR ''%'' then like ps (c # cs) \<or> like (p # ps) cs
      else if p = CHR ''_'' then like ps cs
      else like_char p c \<and> like ps cs)"

definition c_string :: "string \<Rightarrow> string" where
  "c_string s = takeWhile (\<lambda>c. c \<noteq> CHR 0x00) s"

definition utf8_len :: "string \<Rightarrow> int" where
  "utf8_len s = sum_list (map (\<lambda>c. if ord c < 128 then 1 else 2) s)"

definition like_pattern :: "string \<Rightarrow> string" where
  "like_pattern s = CHR ''%'' # s @ ''%''"

definition too_complex :: "string \<Rightarrow> bool" where
  "too_complex s = (utf8_len (like_pattern s) > 50000)"

text \<open>The value of \<open>column.contains(s)\<close> on a row, when the pattern is not refused.\<close>

definition contains :: "string \<Rightarrow> string \<Rightarrow> bool" where
  "contains column s = like (c_string (like_pattern s)) (c_string column)"

text \<open>
  \<open>ORDER BY\<close> leaves the order of rows with equal keys to the engine. The model sorts
  stably, so rows with equal keys keep the order of the scan. Strings are compared as
  SQLite's default collation compares them, code point by code point.
\<close>

definition order_by_asc :: "('r \<Rightarrow> 'k::linorder) \<Rightarrow> 'r list \<Rightarrow> 'r list" where
  "order_by_asc key rows = sort_key key rows"

definition order_by_desc :: "('r \<Rightarrow> 'k::linorder) \<Rightarrow> 'r list \<Rightarrow> 'r list" where
  "order_by_desc key rows = rev (sort_key key (rev rows))"

text \<open>\<open>query.join(Author)\<close>: each blog paired with the authors its foreign key names.\<close>

definition join_author :: "store \<Rightarrow> blog list \<Rightarrow> (blog \<times> author) list" where
  "join_author st rows =
     concat (map (\<lambda>b. map (Pair b) (filter (\<lambda>a. a_id a = author_id b) (authors st))) rows)"

text \<open>\<open>Blog.author.has(criterion)\<close>: some author row with the blog's foreign key meets the
  criterion.\<close>

definition author_has :: "store \<Rightarrow> (author \<Rightarrow> bool) \<Rightarrow> blog \<Rightarrow> bool" where
  "author_has st criterion b = list_ex (\<lambda>a. a_id a = author_id b \<and> criterion a) (authors st)"

subsection \<open>The listing (\<open>blogs\<close> in \<open>app.py\<close>)\<close>

text \<open>The search filter of the route, applied when the stripped parameter is not empty:
  the rows it keeps when the query runs.\<close>

definition search_filter :: "store \<Rightarrow> string \<Rightarrow> blog list \<Rightarrow> blog list" where
  "search_filter st search rows =
     filter (\<lambda>b. contains (title b) search \<or> contains (content b) search \<or>
                 author_has st (\<lambda>a. contains (name a) search) b) rows"

text \<open>
  Running the filtered query. \<open>LIKE\<close> is evaluated on the first row that is scanned, so a
  pattern that is too long fails the query (\<open>None\<close>, the \<open>OperationalError\<close>) as soon as
  there is a row.
\<close>

definition run_search :: "store \<Rightarrow> string \<Rightarrow> blog list \<Rightarrow> blog list option" where
  "run_search st search rows =
     (if rows \<noteq> [] \<and> too_complex search then None else Some (search_filter st search rows))"

definition apply_sorting :: "store \<Rightarrow> string \<Rightarrow> blog list \<Rightarrow> blog list" where
  "apply_sorting st sort_by rows =
     (if sort_by = ''oldest'' then order_by_asc b_id rows
      else if sort_by = ''title'' then order_by_asc title rows
      else if sort_by = ''author'' then map fst (order_by_asc (\<lambda>r. name (snd r)) (join_author st rows))
      else order_by_desc b_id rows)"

text \<open>
  The two request parameters are optional: \<open>request.args.get('sort', 'newest')\<close> and
  \<open>request.args.get('search', '').strip()\<close>. The list is the one the template gets: when
  the query fails, the \<open>except\<close> branch of the route renders the page with \<open>blogs=[]\<close>.
\<close>

definition blogs_list :: "store \<Rightarrow> string option \<Rightarrow> string option \<Rightarrow> blog list" where
  "blogs_list st sort_arg search_arg =
     (let sort_by = (case sort_arg of None \<Rightarrow> ''newest'' | Some v \<Rightarrow> v);
          search = strip (case search_arg of None \<Rightarrow> [] | Some v \<Rightarrow> v);
          query = blogs st;
          query = (if search \<noteq> [] then run_search st search query else Some query)
      in case query of
           None \<Rightarrow> []
         | Some rows \<Rightarrow> apply_sorting st sort_by rows)"

text \<open>The rows of a listing before they are sorted (none when the query fails).\<close>

definition listed :: "store \<Rightarrow> string option \<Rightarrow> blog list" where
  "listed st search_arg =
     (let search = strip (case search_arg of None \<Rightarrow> [] | Some v \<Rightarrow> v)
      in if search \<noteq> []
         then (case run_search st search (blogs st) of None \<Rightarrow> [] | Some rows \<Rightarrow> rows)
         else blogs st)"

subsection \<open>\<open>Blog.search_blogs\<close>\<close>

text \<open>
  The method does not catch the error of a pattern that is too long: \<open>None\<close> is the
  exception it raises. SQLite tests \<open>published\<close> before it evaluates \<open>LIKE\<close>, so the error
  needs a row of the join that is published.
\<close>

definition search_blogs :: "store \<Rightarrow> string \<Rightarrow> nat option \<Rightarrow> blog list option" where
  "search_blogs st query limit =
     (if list_ex (\<lambda>(b, a). published b) (join_author st (blogs st)) \<and> too_complex query
      then None
      else
        let search_query =
              order_by_desc (\<lambda>r. created_at (fst r))
                (filter (\<lambda>(b, a). (contains (title b) query \<or> contains (content b) query \<or>
                                    contains (name a) query) \<and> published b)
                   (join_author st (blogs st)))
        in case limit of
             Some n \<Rightarrow>
               if n \<noteq> 0 then Some (map fst (take n search_query))
               else Some (map fst search_query)
           | None \<Rightarrow> Some (map fst search_query))"

subsection \<open>Related blogs (\<open>Blog.get_related_blogs\<close> and the query in \<open>view_blog\<close>)\<close>

definition get_related_blogs :: "store \<Rightarrow> blog \<Rightarrow> nat \<Rightarrow> blog list" where
  "get_related_blogs st self limit =
     take limit
       (order_by_desc created_at
          (filter (\<lambda>b. author_id b = author_id self \<and> b_id b \<noteq> b_id self \<and> published b)
             (blogs st)))"

text \<open>\<open>view_blog\<close> looks the blog up by its id (a missing one is the 404 that the handler
  turns into a redirect) and runs its own related query, which has no \<open>ORDER BY\<close>: the rows
  come in the order of the scan.\<close>

definition view_blog_related :: "store \<Rightarrow> blog \<Rightarrow> int \<Rightarrow> blog list" where
  "view_blog_related st blog blog_id =
     take 3 (filter (\<lambda>b. author_id b = author_id blog \<and> b_id b \<noteq> blog_id) (blogs st))"

definition view_blog :: "store \<Rightarrow> int \<Rightarrow> (blog \<times> blog list) option" where
  "view_blog st blog_id =
     (case find (\<lambda>b. b_id b = blog_id) (blogs st) of
        None \<Rightarrow> None
      | Some blog \<Rightarrow> Some (blog, view_blog_related st blog blog_id))"

text \<open>The order the specification asks of related blogs: most recently created first, equal
  creation times by descending id.\<close>

definition newer_first :: "blog \<Rightarrow> blog \<Rightarrow> bool" where
  "newer_first x y = (created_at x > created_at y \<or> (created_at x = created_at y \<and> b_id x > b_id y))"

section \<open>Submitting a blog (\<open>add_blog\<close> in \<open>app.py\<close>)\<close>

subsection \<open>\<open>validate_email\<close>\<close>







subsection \<open>The constructors of the models\<close>



subsection \<open>Commits\<close>





subsection \<open>The handler\<close>







section \<open>A sample store\<close>

text \<open>Two authors and four posts; posts 3 and 4 were created at the same tick.\<close>

definition alice :: author where
  "alice = \<lparr>a_id = 1, name = ''Alice Johnson'', email = ''alice@example.com'', bio = None,
     avatar_url = None, a_created_at = 1, a_updated_at = 1\<rparr>"

definition bob :: author where
  "bob = \<lparr>a_id = 2, name = ''Bob Smith'', email = ''bob@example.com'', bio = None,
     avatar_url = None, a_created_at = 2, a_updated_at = 2\<rparr>"

definition post1 :: blog where
  "post1 = \<lparr>b_id = 1, title = ''Zebra Crossing'', content = ''How to cross a road.'',
     date = ''01-01-2024'', slug = ''zebra-crossing'', excerpt = ''How to cross a road.'',
     featured = False, published = True, view_count = 0, like_count = 0,
     created_at = 5, updated_at = 5, author_id = 2\<rparr>"

definition post2 :: blog where
  "post2 = \<lparr>b_id = 2, title = ''Hello World'', content = ''A first post, as usual.'',
     date = ''02-01-2024'', slug = ''hello-world'', excerpt = ''A first post, as usual.'',
     featured = True, published = True, view_count = 3, like_count = 1,
     created_at = 6, updated_at = 6, author_id = 1\<rparr>"

definition post3 :: blog where
  "post3 = \<lparr>b_id = 3, title = ''Apple Pie'', content = ''Peel, slice and bake.'',
     date = ''03-01-2024'', slug = ''apple-pie'', excerpt = ''Peel, slice and bake.'',
     featured = False, published = True, view_count = 7, like_count = 2,
     created_at = 8, updated_at = 8, author_id = 2\<rparr>"

definition post4 :: blog where
  "post4 = \<lparr>b_id = 4, title = ''Mango Jam'', content = ''Boil with sugar.'',
     date = ''03-01-2024'', slug = ''mango-jam'', excerpt = ''Boil with sugar.'',
     featured = False, published = True, view_count = 0, like_count = 0,
     created_at = 8, updated_at = 8, author_id = 2\<rparr>"

definition sample_store :: store where
  "sample_store = \<lparr>authors = [alice, bob], blogs = [post1, post2, post3, post4]\<rparr>"

text \<open>A character that is neither a wildcard of \<open>LIKE\<close>, nor an ASCII letter, nor NUL.\<close>

definition plain :: "char \<Rightarrow> bool" where
  "plain c = (c \<noteq> CHR ''%'' \<and> c \<noteq> CHR ''_'' \<and> c \<noteq> CHR 0x00 \<and>
     \<not> (65 \<le> ord c \<and> ord c \<le> 90) \<and> \<not> (97 \<le> ord c \<and> ord c \<le> 122))"

text \<open>A post whose title has a NUL character in it.\<close>

definition post5 :: blog where
  "post5 = \<lparr>b_id = 5, title = ''Zebra'' @ [CHR 0x00] @ ''Crossing'', content = ''Stripes.'',
     date = ''04-01-2024'', slug = ''zebra'', excerpt = ''Stripes.'',
     featured = False, published = True, view_count = 0, like_count = 0,
     created_at = 9, updated_at = 9, author_id = 1\<rparr>"


section \<open>Properties of the string primitives\<close>

lemma rfind_rightmost: "rfind w c = idx (rightmost (\<lambda>x. x = c) w)"
  by (induction w) (simp_all add: idx_def Let_def split: option.splits)

lemma rightmost_disj:
  "idx (rightmost (\<lambda>x. P x \<or> Q x) w) = max (idx (rightmost P w)) (idx (rightmost Q w))"
  by (induction w) (simp_all add: idx_def split: option.splits)

lemma rightmost_None: "rightmost P w = None \<longleftrightarrow> (\<forall>x\<in>set w. \<not> P x)"
  by (induction w) (auto split: option.splits)

lemma rightmost_SomeD: "rightmost P w = Some i \<Longrightarrow> i < length w \<and> P (w ! i)"
  by (induction w arbitrary: i) (auto split: option.splits if_splits)

lemma rightmost_Some_greatest:
  "rightmost P w = Some i \<Longrightarrow> i < j \<Longrightarrow> j < length w \<Longrightarrow> \<not> P (w ! j)"
proof (induction w arbitrary: i j)
  case Nil
  then show ?case by simp
next
  case (Cons x xs)
  show ?case
  proof (cases "rightmost P xs")
    case None
    then have "\<forall>y\<in>set xs. \<not> P y" by (simp add: rightmost_None)
    moreover from Cons.prems obtain k where "j = Suc k" "k < length xs"
      by (cases j) auto
    ultimately show ?thesis by simp
  next
    case (Some a)
    with Cons.prems have i: "i = Suc a" by simp
    with Cons.prems obtain k where k: "j = Suc k" "a < k" "k < length xs"
      by (cases j) auto
    from Cons.IH [OF Some k(2) k(3)] k(1) show ?thesis by simp
  qed
qed

lemma split_ws_Nil: "dropWhile isspace s = [] \<Longrightarrow> split_ws s = []"
  by (subst split_ws.simps) (simp only: list.case)

lemma split_ws_Cons:
  "dropWhile isspace s = c # cs \<Longrightarrow>
   split_ws s = (c # takeWhile (\<lambda>x. \<not> isspace x) cs) # split_ws (dropWhile (\<lambda>x. \<not> isspace x) cs)"
  by (subst split_ws.simps) (simp only: list.case)

lemma split_ws_words: "w \<in> set (split_ws s) \<Longrightarrow> w \<noteq> [] \<and> (\<forall>c\<in>set w. \<not> isspace c)"
proof (induction s rule: split_ws.induct)
  case (1 s)
  show ?case
  proof (cases "dropWhile isspace s")
    case Nil
    with "1.prems" show ?thesis by (simp add: split_ws_Nil)
  next
    case (Cons c cs)
    have c: "\<not> isspace c" using Cons hd_dropWhile [of isspace s] by auto
    from "1.prems"
    have "w \<in> set ((c # takeWhile (\<lambda>x. \<not> isspace x) cs) # split_ws (dropWhile (\<lambda>x. \<not> isspace x) cs))"
      by (simp only: split_ws_Cons [OF Cons])
    then consider "w = c # takeWhile (\<lambda>x. \<not> isspace x) cs"
      | "w \<in> set (split_ws (dropWhile (\<lambda>x. \<not> isspace x) cs))"
      by auto
    then show ?thesis
    proof cases
      case 1
      then show ?thesis using c by (auto dest: set_takeWhileD)
    next
      case 2
      then show ?thesis by (rule "1.IH" [OF Cons])
    qed
  qed
qed

lemma hd_join: "ws \<noteq> [] \<Longrightarrow> hd ws \<noteq> [] \<Longrightarrow> hd (join sep ws) = hd (hd ws)"
  by (induction sep ws rule: join.induct) auto

lemma isspace_space: "isspace CHR '' ''"
  by (simp add: isspace_def ord_def)

subsection \<open>The first line of the source is the collapsed content\<close>

lemma collapse_runs_space:
  "isspace c \<Longrightarrow> collapse_runs (c # cs) = CHR '' '' # collapse_runs (dropWhile isspace cs)"
proof (induction cs arbitrary: c)
  case Nil
  then show ?case by simp
next
  case (Cons d cs)
  show ?case
  proof (cases "isspace d")
    case True
    then show ?thesis using Cons.prems Cons.IH [OF True] by simp
  next
    case False
    then show ?thesis using Cons.prems by simp
  qed
qed

lemma collapse_runs_word: "\<not> isspace c \<Longrightarrow> collapse_runs (c # cs) = c # collapse_runs cs"
  by (cases cs) simp_all

lemma collapse_runs_takeWhile:
  "collapse_runs cs =
     takeWhile (\<lambda>x. \<not> isspace x) cs @ collapse_runs (dropWhile (\<lambda>x. \<not> isspace x) cs)"
proof (induction cs)
  case Nil
  then show ?case by simp
next
  case (Cons c cs)
  then show ?case by (cases "isspace c") (simp_all add: collapse_runs_word)
qed

lemma lstrip_collapse_runs:
  assumes "x = [] \<or> \<not> isspace (hd x)"
  shows "dropWhile isspace (collapse_runs x) = collapse_runs x"
proof (cases x)
  case Nil
  then show ?thesis by simp
next
  case (Cons c cs)
  with assms have "\<not> isspace c" by simp
  then show ?thesis using Cons by (simp add: collapse_runs_word)
qed

lemma lstrip_hd: "dropWhile isspace s = [] \<or> \<not> isspace (hd (dropWhile isspace s))"
  using hd_dropWhile [of isspace s] by blast

lemma collapsed_lstrip:
  "collapsed s = rev (dropWhile isspace (rev (collapse_runs (dropWhile isspace s))))"
proof (cases s)
  case Nil
  then show ?thesis by (simp add: collapsed_def strip_def)
next
  case (Cons c cs)
  show ?thesis
  proof (cases "isspace c")
    case True
    have "dropWhile isspace (collapse_runs s) = collapse_runs (dropWhile isspace cs)"
      using True Cons lstrip_collapse_runs [OF lstrip_hd, of cs]
      by (simp add: collapse_runs_space isspace_space)
    then show ?thesis using True Cons by (simp add: collapsed_def strip_def)
  next
    case False
    then have "dropWhile isspace (collapse_runs s) = collapse_runs s"
      using Cons by (intro lstrip_collapse_runs) simp
    then show ?thesis using False Cons by (simp add: collapsed_def strip_def)
  qed
qed

lemma rstrip_Cons:
  "rev (dropWhile isspace (rev (x # y))) =
     (if isspace x \<and> rev (dropWhile isspace (rev y)) = [] then []
      else x # rev (dropWhile isspace (rev y)))"
  by (auto simp: dropWhile_append)

lemma rstrip_word:
  "\<forall>c\<in>set w. \<not> isspace c \<Longrightarrow>
   rev (dropWhile isspace (rev (w @ y))) = w @ rev (dropWhile isspace (rev y))"
proof (induction w)
  case Nil
  then show ?case by simp
next
  case (Cons c w)
  then have IH: "rev (dropWhile isspace (rev (w @ y))) = w @ rev (dropWhile isspace (rev y))"
    and c: "\<not> isspace c" by simp_all
  have "rev (dropWhile isspace (rev ((c # w) @ y))) = rev (dropWhile isspace (rev (c # (w @ y))))"
    by simp
  also have "\<dots> = c # rev (dropWhile isspace (rev (w @ y)))"
    using c by (simp only: rstrip_Cons) simp
  finally show ?case using IH by simp
qed

lemma join_Cons:
  "join sep (w # ws) = (if ws = [] then w else w @ sep @ join sep ws)"
  by (cases ws) simp_all

lemma join_empty_iff:
  "\<forall>w\<in>set ws. w \<noteq> [] \<Longrightarrow> join sep ws = [] \<longleftrightarrow> ws = []"
  by (cases ws) (auto simp: join_Cons)

lemma clean_content_lstrip:
  "clean_content s = rev (dropWhile isspace (rev (collapse_runs (dropWhile isspace s))))"
proof (induction s rule: split_ws.induct)
  case (1 s)
  show ?case
  proof (cases "dropWhile isspace s")
    case Nil
    have "clean_content s = []" by (simp add: clean_content_def split_ws_Nil [OF Nil])
    then show ?thesis unfolding Nil by simp
  next
    case (Cons c cs)
    define w where "w = c # takeWhile (\<lambda>x. \<not> isspace x) cs"
    define rest where "rest = dropWhile (\<lambda>x. \<not> isspace x) cs"
    have c: "\<not> isspace c" using Cons hd_dropWhile [of isspace s] by auto
    have w: "\<forall>x\<in>set w. \<not> isspace x" using c by (auto simp: w_def dest: set_takeWhileD)
    have IH: "clean_content rest =
        rev (dropWhile isspace (rev (collapse_runs (dropWhile isspace rest))))"
      unfolding rest_def by (rule "1.IH" [OF Cons])
    have sw: "split_ws s = w # split_ws rest"
      unfolding w_def rest_def by (rule split_ws_Cons [OF Cons])
    have cr: "collapse_runs (c # cs) = w @ collapse_runs rest"
      using c collapse_runs_takeWhile [of cs] by (simp add: collapse_runs_word w_def rest_def)
    have rhs: "rev (dropWhile isspace (rev (collapse_runs (c # cs)))) =
        w @ rev (dropWhile isspace (rev (collapse_runs rest)))"
      unfolding cr by (rule rstrip_word [OF w])
    have lhs: "clean_content s =
        (if split_ws rest = [] then w else w @ '' '' @ clean_content rest)"
      by (simp add: clean_content_def sw join_Cons)
    have words: "\<forall>v\<in>set (split_ws rest). v \<noteq> []" using split_ws_words by blast
    have e: "clean_content rest = [] \<longleftrightarrow> split_ws rest = []"
      unfolding clean_content_def by (rule join_empty_iff [OF words])
    show ?thesis
    proof (cases rest)
      case Nil
      then have "split_ws rest = []" by (simp add: split_ws_Nil)
      then show ?thesis using Nil by (simp add: lhs Cons rhs)
    next
      case (Cons sp r)
      have dr: "dropWhile (\<lambda>x. \<not> isspace x) cs = sp # r"
        using Cons by (simp only: rest_def)
      have sp: "isspace sp"
        using hd_dropWhile [of "\<lambda>x. \<not> isspace x" cs] dr
        by (metis list.discI list.sel(1))
      have d: "dropWhile isspace rest = dropWhile isspace r" using sp Cons by simp
      have "collapse_runs rest = CHR '' '' # collapse_runs (dropWhile isspace r)"
        using sp Cons by (simp only: collapse_runs_space)
      then have "rev (dropWhile isspace (rev (collapse_runs rest))) =
          (if clean_content rest = [] then [] else CHR '' '' # clean_content rest)"
        using IH d by (simp only: rstrip_Cons) (simp add: isspace_space)
      then show ?thesis
        using e by (simp add: lhs \<open>dropWhile isspace s = c # cs\<close> rhs)
    qed
  qed
qed

lemma clean_content_collapsed: "clean_content s = collapsed s"
  by (simp only: clean_content_lstrip collapsed_lstrip)

lemma collapsed_code: "collapsed s = join '' '' (split_ws s)"
  by (simp add: clean_content_collapsed [symmetric] clean_content_def)

lemma collapsed_hd:
  assumes ne: "collapsed s \<noteq> []"
  shows "hd (collapsed s) \<noteq> CHR '' ''"
proof -
  from ne have ws: "split_ws s \<noteq> []" by (auto simp: collapsed_code)
  then have "hd (split_ws s) \<in> set (split_ws s)" by simp
  then have h: "hd (split_ws s) \<noteq> []" "\<forall>c\<in>set (hd (split_ws s)). \<not> isspace c"
    using split_ws_words by blast+
  then have "\<not> isspace (hd (hd (split_ws s)))" by simp
  then show ?thesis using hd_join [OF ws h(1)] isspace_space by (auto simp: collapsed_code)
qed

lemma slice_to_nat: "slice_to s (int k) = take k s"
  by (simp add: slice_to_def)

section \<open>The excerpt\<close>

lemma sentence_end_idx:
  "max (rfind w CHR ''.'') (max (rfind w CHR ''!'') (rfind w CHR ''?'')) = idx (rightmost sentence_end w)"
proof -
  have eq: "sentence_end = (\<lambda>x. x = CHR ''.'' \<or> (x = CHR ''!'' \<or> x = CHR ''?''))"
    by (rule ext) (simp add: sentence_end_def)
  show ?thesis
    unfolding eq rfind_rightmost rightmost_disj by (rule refl)
qed

text \<open>
  Claim C1, as the code has it. The content is first collapsed, every whitespace run to one
  space, and stripped of the whitespace at its two ends (\<open>collapsed\<close>). For every content
  string the excerpt generator returns this collapsed and stripped content itself when it
  has at most 150 characters; otherwise, with the window being its first 150 characters,
  the window cut just after the rightmost \<open>.\<close>, \<open>!\<close> or \<open>?\<close> when that index is greater
  than 100, and else the window cut before its rightmost space with \<open>...\<close> appended, or
  the whole window with \<open>...\<close> appended when it has no space. (\<open>rightmost\<close> is
  characterised by \<open>rightmost_SomeD\<close>, \<open>rightmost_Some_greatest\<close> and \<open>rightmost_None\<close>.)
\<close>

theorem generate_excerpt_meets_spec: "generate_excerpt txt = excerpt_spec txt"
proof (cases "length (collapsed txt) \<le> 150")
  case True
  then show ?thesis
    by (simp add: generate_excerpt_def excerpt_spec_def collapsed_code)
next
  case False
  define w where "w = take 150 (collapsed txt)"
  from False have c_ne: "collapsed txt \<noteq> []" by auto
  then have w_ne: "w \<noteq> []" by (simp add: w_def)
  have "hd w = hd (collapsed txt)"
    using c_ne by (cases "collapsed txt") (simp_all add: w_def)
  then have w_hd: "hd w \<noteq> CHR '' ''" using collapsed_hd [OF c_ne] by simp
  have sl: "slice_to (collapsed txt) 150 = w"
    using slice_to_nat [of "collapsed txt" 150] by (simp add: w_def)
  define e where "e = idx (rightmost sentence_end w)"
  define sp where "sp = idx (rightmost (\<lambda>c. c = CHR '' '') w)"
  have e_eq: "max (rfind w CHR ''.'') (max (rfind w CHR ''!'') (rfind w CHR ''?'')) = e"
    by (simp only: e_def sentence_end_idx)
  have sp_eq: "rfind w CHR '' '' = sp"
    by (simp only: sp_def rfind_rightmost)
  have gen: "generate_excerpt txt =
      (if e > 100 then slice_to w (e + 1)
       else if sp > 0 then slice_to w sp @ ''...'' else w @ ''...'')"
    using False
    by (simp add: generate_excerpt_def collapsed_code [symmetric] Let_def sl e_eq sp_eq)
  have cut: "(if sp > 0 then slice_to w sp @ ''...'' else w @ ''...'') = cut_at_space w"
  proof (cases "rightmost (\<lambda>c. c = CHR '' '') w")
    case None
    then show ?thesis by (simp add: sp_def idx_def cut_at_space_def)
  next
    case (Some j)
    from rightmost_SomeD [OF Some] have "j < length w" "w ! j = CHR '' ''" by simp_all
    with w_hd w_ne have "j \<noteq> 0" by (cases w; cases j) auto
    then show ?thesis
      using Some slice_to_nat [of w j] by (simp add: sp_def idx_def cut_at_space_def)
  qed
  have spec: "excerpt_spec txt =
      (case rightmost sentence_end w of
         Some i \<Rightarrow> if i > 100 then take (Suc i) w else cut_at_space w
       | None \<Rightarrow> cut_at_space w)"
    unfolding excerpt_spec_def w_def Let_def using False by simp
  show ?thesis
  proof (cases "rightmost sentence_end w")
    case None
    then have "e = - 1" by (simp add: e_def idx_def)
    then show ?thesis using None gen cut spec by simp
  next
    case (Some i)
    then have e: "e = int i" by (simp add: e_def idx_def)
    have "slice_to w (int i + 1) = take (Suc i) w"
      using slice_to_nat [of w "Suc i"] by (simp add: add.commute)
    then show ?thesis using Some gen cut spec e by simp
  qed
qed

text \<open>
  The claim as stated, with the content only collapsed, fails: of a content with whitespace
  at its ends the collapsed form keeps a space at each end and has far fewer than 150
  characters, and the generator returns something else, the form without them.
\<close>

theorem generate_excerpt_strips:
  "collapse_runs ''  hello   world  '' = '' hello world '' \<and>
   length (collapse_runs ''  hello   world  '') \<le> 150 \<and>
   generate_excerpt ''  hello   world  '' = ''hello world'' \<and>
   generate_excerpt ''  hello   world  '' \<noteq> collapse_runs ''  hello   world  ''"
  by code_simp

lemma slice_to_length: "length (slice_to s k) \<le> length s"
proof -
  have "length (take n s) \<le> length s" for n by simp
  then show ?thesis unfolding slice_to_def by (cases "0 \<le> k") (simp_all del: length_take)
qed

lemma generate_excerpt_sentence_example:
  "generate_excerpt
     ''Web design has evolved significantly over the past decade.  Now web designers must consider user experience, accessibility and speed.\<newline>\<newline>Modern web design emphasizes clean layouts.'' =
   ''Web design has evolved significantly over the past decade. Now web designers must consider user experience, accessibility and speed.''"
  by code_simp

lemma generate_excerpt_space_example:
  "generate_excerpt
     ''Flask is a lightweight and powerful web framework for Python that makes it easy to build web applications quickly and with very little code to write and maintain over the years'' =
   ''Flask is a lightweight and powerful web framework for Python that makes it easy to build web applications quickly and with very little code to write...''"
  by code_simp

text \<open>
  Claim C10. For every content string the generated excerpt has at most 153 characters: a
  window of 150 plus at most the three characters of \<open>...\<close>; this is below the 300 characters
  of the stored column.
\<close>

theorem generate_excerpt_length: "length (generate_excerpt txt) \<le> 153 \<and> (153::nat) < 300"
proof (cases "length (collapsed txt) \<le> 150")
  case True
  then show ?thesis by (simp add: generate_excerpt_def collapsed_code)
next
  case False
  define w where "w = slice_to (collapsed txt) 150"
  have lw: "length w \<le> 150"
    using slice_to_nat [of "collapsed txt" 150] by (simp add: w_def)
  have a: "length (slice_to w k) \<le> 150" for k
    using slice_to_length [of w k] lw by (rule le_trans)
  define e where "e = max (rfind w CHR ''.'') (max (rfind w CHR ''!'') (rfind w CHR ''?''))"
  define sp where "sp = rfind w CHR '' ''"
  have g: "generate_excerpt txt =
      (if e > 100 then slice_to w (e + 1)
       else if sp > 0 then slice_to w sp @ ''...'' else w @ ''...'')"
    using False
    by (simp only: generate_excerpt_def collapsed_code [symmetric] Let_def w_def [symmetric]
        e_def [symmetric] sp_def [symmetric] if_False)
  have "length (generate_excerpt txt) \<le> 153"
  proof (cases "e > 100")
    case True
    then show ?thesis using a [of "e + 1"] by (simp add: g)
  next
    case ne: False
    show ?thesis
    proof (cases "sp > 0")
      case True
      then show ?thesis using ne a [of sp] by (simp add: g)
    next
      case False
      then show ?thesis using ne lw by (simp add: g)
    qed
  qed
  then show ?thesis by simp
qed

section \<open>The slug\<close>

lemma ord_char_of: "ord (char_of n) = n mod 256"
  by (simp add: ord_def)

lemma py_lower_idem: "py_lower (py_lower c) = py_lower c"
proof -
  have "ord c < 256" by (simp add: ord_def)
  then show ?thesis
    by (auto simp: py_lower_def Let_def ord_char_of)
qed

lemma py_lower_hyphen: "py_lower CHR ''-'' = CHR ''-''"
  by (simp add: py_lower_def ord_def)

lemma hyphen_not_space: "\<not> isspace CHR ''-''"
  by (simp add: isspace_def ord_def)

lemma hyphenate_set: "set (hyphenate s) \<subseteq> insert CHR ''-'' (set s)"
proof (induction s rule: hyphenate.induct)
  case 1
  then show ?case by simp
next
  case (2 c cs)
  show ?case
  proof (cases "is_sep c")
    case True
    have "set (dropWhile is_sep cs) \<subseteq> set cs" by (rule set_dropWhileD [THEN subsetI])
    with 2(1) [OF True] True show ?thesis by auto
  next
    case False
    with 2(2) [OF False] show ?thesis by auto
  qed
qed

lemma hyphenate_hd: "\<not> is_sep c \<Longrightarrow> hyphenate (c # cs) = c # hyphenate cs"
  by simp

lemma single_Cons:
  "single (c # s) \<longleftrightarrow> \<not> isspace c \<and> (c = CHR ''-'' \<longrightarrow> s = [] \<or> hd s \<noteq> CHR ''-'') \<and> single s"
  by (cases s) (auto simp: hyphen_not_space)

lemma hyphenate_single: "single (hyphenate s)"
proof (induction s rule: hyphenate.induct)
  case 1
  then show ?case by simp
next
  case (2 c cs)
  show ?case
  proof (cases "is_sep c")
    case True
    have hdn: "hyphenate (dropWhile is_sep cs) = [] \<or> hd (hyphenate (dropWhile is_sep cs)) \<noteq> CHR ''-''"
    proof (cases "dropWhile is_sep cs")
      case Nil
      then show ?thesis by (simp only: hyphenate.simps) simp
    next
      case (Cons x xs)
      then have "\<not> is_sep x" using hd_dropWhile [of is_sep cs] by auto
      then show ?thesis using Cons by (auto simp: is_sep_def)
    qed
    have "hyphenate (c # cs) = CHR ''-'' # hyphenate (dropWhile is_sep cs)" using True by simp
    then show ?thesis using 2(1) [OF True] hdn
      by (simp only: single_Cons) (simp add: hyphen_not_space)
  next
    case False
    then have c: "\<not> isspace c" "c \<noteq> CHR ''-''" by (auto simp: is_sep_def)
    have "hyphenate (c # cs) = c # hyphenate cs" using False by simp
    then show ?thesis using 2(2) [OF False] c
      by (simp only: single_Cons) simp
  qed
qed

lemma single_take: "single s \<Longrightarrow> single (take n s)"
proof (induction s arbitrary: n rule: single.induct)
  case 1
  then show ?case by simp
next
  case (2 c)
  then show ?case by (cases n) simp_all
next
  case (3 c d cs)
  show ?case
  proof (cases n)
    case 0
    then show ?thesis by simp
  next
    case (Suc m)
    from 3 have "single (take m (d # cs))" by simp
    with 3(2) Suc show ?thesis by (cases m) simp_all
  qed
qed

lemma single_hyphenate: "single s \<Longrightarrow> hyphenate s = s"
proof (induction s rule: single.induct)
  case 1
  then show ?case by simp
next
  case (2 c)
  then show ?case by (simp add: is_sep_def)
next
  case (3 c d cs)
  then have IH: "hyphenate (d # cs) = d # cs" by simp
  from 3(2) have d: "\<not> isspace d" by (cases cs) simp_all
  show ?case
  proof (cases "c = CHR ''-''")
    case True
    with 3(2) d have "\<not> is_sep d" by (simp add: is_sep_def)
    then have "dropWhile is_sep (d # cs) = d # cs" by simp
    then show ?thesis using True IH by (simp add: is_sep_def del: hyphenate.simps(2) [of d])
  next
    case False
    with 3(2) have "\<not> is_sep c" by (simp add: is_sep_def)
    then show ?thesis using IH by simp
  qed
qed


lemma generate_slug_length: "length (generate_slug t) \<le> 50"
  using slice_to_nat [of "hyphenate (strip_non_slug (lower t))" 50]
  by (simp add: generate_slug_def Let_def)

lemma generate_slug_example: "generate_slug ''Hello,  World -- 2024!'' = ''hello-world-2024''"
  by code_simp

text \<open>
  Claim C8. For every title the slug function is idempotent (the slug of a slug is that slug)
  and its output has at most 50 characters.
\<close>

theorem generate_slug_idempotent:
  "generate_slug (generate_slug t) = generate_slug t \<and> length (generate_slug t) \<le> 50"
proof -
  define s2 where "s2 = strip_non_slug (lower t)"
  define s4 where "s4 = take 50 (hyphenate s2)"
  have g: "generate_slug t = s4"
    using slice_to_nat [of "hyphenate s2" 50]
    by (simp add: generate_slug_def s4_def s2_def Let_def)
  have s2_low: "\<forall>c\<in>set s2. py_lower c = c"
    by (auto simp: s2_def strip_non_slug_def lower_def py_lower_idem)
  have s2_slug: "\<forall>c\<in>set s2. slug_char c"
    by (auto simp: s2_def strip_non_slug_def)
  have sub: "set s4 \<subseteq> insert CHR ''-'' (set s2)"
    using hyphenate_set [of s2] set_take_subset [of 50 "hyphenate s2"] by (auto simp: s4_def)
  have low: "lower s4 = s4"
    unfolding lower_def using sub s2_low py_lower_hyphen by (intro map_idI) auto
  have "\<forall>c\<in>set s4. slug_char c"
    using sub s2_slug by (auto simp: slug_char_def)
  then have strip: "strip_non_slug s4 = s4"
    by (simp add: strip_non_slug_def)
  have "single s4" unfolding s4_def by (intro single_take hyphenate_single)
  then have hyp: "hyphenate s4 = s4" by (rule single_hyphenate)
  have len: "take 50 s4 = s4" by (simp add: s4_def)
  have "generate_slug s4 = s4"
    using slice_to_nat [of s4 50] by (simp add: generate_slug_def Let_def low strip hyp len)
  then have "generate_slug (generate_slug t) = generate_slug t" by (simp add: g)
  then show ?thesis using generate_slug_length [of t] by simp
qed

section \<open>The counters\<close>

lemma commit_blog_ok:
  "counters_ok b \<Longrightarrow> store_counters_ok st \<Longrightarrow>
   counters_ok (fst (commit_blog now b st)) \<and> store_counters_ok (snd (commit_blog now b st))"
  by (auto simp: commit_blog_def counters_ok_def store_counters_ok_def Let_def list_all_iff)

lemma counters_preserved:
  assumes "counters_ok b" and "store_counters_ok st"
  shows "counters_ok (fst (increment_view_count now b st))"
    and "store_counters_ok (snd (increment_view_count now b st))"
    and "counters_ok (fst (increment_like_count now b st))"
    and "store_counters_ok (snd (increment_like_count now b st))"
    and "counters_ok (fst (decrement_like_count now b st))"
    and "store_counters_ok (snd (decrement_like_count now b st))"
proof -
  have v: "counters_ok (b\<lparr>view_count := view_count b + 1\<rparr>)"
    and l: "counters_ok (b\<lparr>like_count := like_count b + 1\<rparr>)"
    using assms(1) by (simp_all add: counters_ok_def)
  have d: "like_count b > 0 \<Longrightarrow> counters_ok (b\<lparr>like_count := like_count b - 1\<rparr>)"
    using assms(1) by (simp add: counters_ok_def)
  show "counters_ok (fst (increment_view_count now b st))"
    and "store_counters_ok (snd (increment_view_count now b st))"
    using commit_blog_ok [OF v assms(2)] by (simp_all add: increment_view_count_def)
  show "counters_ok (fst (increment_like_count now b st))"
    and "store_counters_ok (snd (increment_like_count now b st))"
    using commit_blog_ok [OF l assms(2)] by (simp_all add: increment_like_count_def)
  show "counters_ok (fst (decrement_like_count now b st))"
    and "store_counters_ok (snd (decrement_like_count now b st))"
    using commit_blog_ok [OF d assms(2)] assms by (simp_all add: decrement_like_count_def)
qed

lemma decrement_like_count_value:
  "like_count (fst (decrement_like_count now b st)) =
     (if like_count b > 0 then like_count b - 1 else like_count b)"
  by (simp add: decrement_like_count_def commit_blog_def Let_def)

lemma decrement_noop: "\<not> like_count b > 0 \<Longrightarrow> decrement_like_count now b st = (b, st)"
  by (simp add: decrement_like_count_def)

text \<open>
  Claim C7. When the view and like counters of a blog (and of every stored row) are not
  negative, they are not negative after \<open>increment_view_count\<close>, \<open>increment_like_count\<close> or
  \<open>decrement_like_count\<close>, on the object and in the store. \<open>decrement_like_count\<close> subtracts
  one only from a like counter greater than 0 and otherwise changes nothing, so a blog with
  \<open>like_count = 0\<close> stays at 0.
\<close>

theorem counters_never_negative:
  assumes "counters_ok b" and "store_counters_ok st"
  shows "counters_ok (fst (increment_view_count now b st)) \<and>
         store_counters_ok (snd (increment_view_count now b st)) \<and>
         counters_ok (fst (increment_like_count now b st)) \<and>
         store_counters_ok (snd (increment_like_count now b st)) \<and>
         counters_ok (fst (decrement_like_count now b st)) \<and>
         store_counters_ok (snd (decrement_like_count now b st)) \<and>
         like_count (fst (decrement_like_count now b st)) =
           (if like_count b > 0 then like_count b - 1 else like_count b) \<and>
         (like_count b = 0 \<longrightarrow> decrement_like_count now b st = (b, st))"
  using counters_preserved [OF assms] decrement_like_count_value [of now b st]
    decrement_noop [of b now st]
  by simp

theorem counters_never_negative_witness:
  "counters_ok post1 \<and> store_counters_ok sample_store \<and>
   like_count post1 = 0 \<and>
   decrement_like_count 11 post1 sample_store = (post1, sample_store) \<and>
   like_count (fst (decrement_like_count 11 post1 sample_store)) = 0 \<and>
   view_count (fst (increment_view_count 11 post1 sample_store)) = 1 \<and>
   counters_ok (fst (increment_view_count 11 post1 sample_store)) \<and>
   store_counters_ok (snd (increment_like_count 11 post1 sample_store))"
proof -
  have h1: "counters_ok post1" by (simp add: counters_ok_def post1_def)
  have h2: "store_counters_ok sample_store"
    by (simp add: store_counters_ok_def sample_store_def counters_ok_def
        post1_def post2_def post3_def post4_def)
  have z: "like_count post1 = 0" by (simp add: post1_def)
  have v: "view_count (fst (increment_view_count 11 post1 sample_store)) = 1"
    by (simp add: increment_view_count_def commit_blog_def Let_def post1_def)
  from counters_never_negative [OF h1 h2, of 11] z v h1 h2 show ?thesis by simp
qed

section \<open>The listing\<close>


lemma order_by_asc_sorted: "sorted (map key (order_by_asc key rows))"
  by (simp add: order_by_asc_def)

lemma order_by_asc_mset: "mset (order_by_asc key rows) = mset rows"
  by (simp add: order_by_asc_def)

lemma order_by_desc_sorted: "sorted (rev (map key (order_by_desc key rows)))"
  by (simp add: order_by_desc_def rev_map)

lemma order_by_desc_mset: "mset (order_by_desc key rows) = mset rows"
  by (simp add: order_by_desc_def)

lemma join_author_set:
  "(b, a) \<in> set (join_author st rows) \<longleftrightarrow> b \<in> set rows \<and> a \<in> set (authors st) \<and> a_id a = author_id b"
  by (auto simp: join_author_def)

lemma apply_sorting_Nil: "apply_sorting st sort_by [] = []"
  by (simp add: apply_sorting_def order_by_asc_def order_by_desc_def join_author_def)

lemma blogs_list_eq:
  "blogs_list st sort_arg search_arg =
     apply_sorting st (case sort_arg of None \<Rightarrow> ''newest'' | Some v \<Rightarrow> v) (listed st search_arg)"
  by (simp add: blogs_list_def listed_def Let_def apply_sorting_Nil split: option.splits)

lemma listing_by_author_example: "map b_id (blogs_list sample_store (Some ''author'') None) = [2, 1, 3, 4]"
  by code_simp

lemma listing_by_title_example: "map b_id (blogs_list sample_store (Some ''title'') None) = [3, 2, 4, 1]"
  by code_simp

lemma listing_fallback_example: "map b_id (blogs_list sample_store (Some ''recent'') None) = [4, 3, 2, 1]"
  by code_simp

lemma listing_oldest_example: "map b_id (blogs_list sample_store (Some ''oldest'') (Some ''bob'')) = [1, 3, 4]"
  by code_simp


text \<open>
  Claim C4. In a blog listing the sort parameter \<open>oldest\<close> orders the selected blogs by
  ascending id, \<open>title\<close> by ascending title, \<open>author\<close> joins the author table and orders by
  ascending author name, and every other value, \<open>newest\<close> and a missing parameter included,
  orders by descending id. (\<open>listed\<close> is the selection before sorting.)
\<close>

theorem listing_order:
  "(sort_by = ''oldest'' \<longrightarrow>
      sorted (map b_id (blogs_list st (Some sort_by) search_arg)) \<and>
      mset (blogs_list st (Some sort_by) search_arg) = mset (listed st search_arg)) \<and>
   (sort_by = ''title'' \<longrightarrow>
      sorted (map title (blogs_list st (Some sort_by) search_arg)) \<and>
      mset (blogs_list st (Some sort_by) search_arg) = mset (listed st search_arg)) \<and>
   (sort_by = ''author'' \<longrightarrow>
      (\<exists>rows. blogs_list st (Some sort_by) search_arg = map fst rows \<and>
              sorted (map (\<lambda>r. name (snd r)) rows) \<and>
              mset rows = mset (join_author st (listed st search_arg)))) \<and>
   (sort_by \<notin> {''oldest'', ''title'', ''author''} \<longrightarrow>
      sorted (rev (map b_id (blogs_list st (Some sort_by) search_arg))) \<and>
      mset (blogs_list st (Some sort_by) search_arg) = mset (listed st search_arg) \<and>
      blogs_list st (Some sort_by) search_arg = blogs_list st (Some ''newest'') search_arg \<and>
      blogs_list st None search_arg = blogs_list st (Some ''newest'') search_arg)"
proof -
  let ?R = "listed st search_arg"
  have a: "sort_by = ''author'' \<longrightarrow>
      (\<exists>rows. blogs_list st (Some sort_by) search_arg = map fst rows \<and>
              sorted (map (\<lambda>r. name (snd r)) rows) \<and>
              mset rows = mset (join_author st ?R))"
  proof
    assume s: "sort_by = ''author''"
    let ?rows = "order_by_asc (\<lambda>r. name (snd r)) (join_author st ?R)"
    have "blogs_list st (Some sort_by) search_arg = map fst ?rows"
      using s by (simp add: blogs_list_eq apply_sorting_def)
    moreover have "sorted (map (\<lambda>r. name (snd r)) ?rows)" by (rule order_by_asc_sorted)
    moreover have "mset ?rows = mset (join_author st ?R)" by (rule order_by_asc_mset)
    ultimately show "\<exists>rows. blogs_list st (Some sort_by) search_arg = map fst rows \<and>
              sorted (map (\<lambda>r. name (snd r)) rows) \<and>
              mset rows = mset (join_author st ?R)" by blast
  qed
  have o: "sort_by = ''oldest'' \<longrightarrow>
      sorted (map b_id (blogs_list st (Some sort_by) search_arg)) \<and>
      mset (blogs_list st (Some sort_by) search_arg) = mset ?R"
    by (simp add: blogs_list_eq apply_sorting_def order_by_asc_sorted order_by_asc_mset)
  have t: "sort_by = ''title'' \<longrightarrow>
      sorted (map title (blogs_list st (Some sort_by) search_arg)) \<and>
      mset (blogs_list st (Some sort_by) search_arg) = mset ?R"
    by (simp add: blogs_list_eq apply_sorting_def order_by_asc_sorted order_by_asc_mset)
  have n: "sort_by \<notin> {''oldest'', ''title'', ''author''} \<longrightarrow>
      sorted (rev (map b_id (blogs_list st (Some sort_by) search_arg))) \<and>
      mset (blogs_list st (Some sort_by) search_arg) = mset ?R \<and>
      blogs_list st (Some sort_by) search_arg = blogs_list st (Some ''newest'') search_arg \<and>
      blogs_list st None search_arg = blogs_list st (Some ''newest'') search_arg"
    by (simp add: blogs_list_eq apply_sorting_def order_by_desc_sorted order_by_desc_mset)
  from o t a n show ?thesis by blast
qed

theorem listing_order_witness:
  "sorted (map b_id (blogs_list sample_store (Some ''oldest'') None)) \<and>
   sorted (map title (blogs_list sample_store (Some ''title'') None)) \<and>
   ''recent'' \<notin> {''oldest'', ''title'', ''author''} \<and>
   sorted (rev (map b_id (blogs_list sample_store (Some ''recent'') None))) \<and>
   blogs_list sample_store (Some ''recent'') None = blogs_list sample_store (Some ''newest'') None \<and>
   blogs_list sample_store None None = blogs_list sample_store (Some ''newest'') None \<and>
   (\<exists>rows :: (blog \<times> author) list.
      blogs_list sample_store (Some ''author'') None = map fst rows \<and>
      sorted (map (\<lambda>r. name (snd r)) rows)) \<and>
   map b_id (blogs_list sample_store (Some ''author'') None) = [2, 1, 3, 4]"
proof -
  have r: "''recent'' \<notin> {''oldest'', ''title'', ''author''}" by simp
  from listing_order [of "''oldest''" sample_store None]
  have o: "sorted (map b_id (blogs_list sample_store (Some ''oldest'') None))" by simp
  from listing_order [of "''title''" sample_store None]
  have t: "sorted (map title (blogs_list sample_store (Some ''title'') None))" by simp
  from listing_order [of "''recent''" sample_store None] r
  have n: "sorted (rev (map b_id (blogs_list sample_store (Some ''recent'') None)))"
      "blogs_list sample_store (Some ''recent'') None = blogs_list sample_store (Some ''newest'') None"
      "blogs_list sample_store None None = blogs_list sample_store (Some ''newest'') None"
    by blast+
  from listing_order [of "''author''" sample_store None]
  have "\<exists>rows. blogs_list sample_store (Some ''author'') None = map fst rows \<and>
           sorted (map (\<lambda>r. name (snd r)) rows) \<and>
           mset rows = mset (join_author sample_store (listed sample_store None))" by simp
  then have a: "\<exists>rows :: (blog \<times> author) list.
           blogs_list sample_store (Some ''author'') None = map fst rows \<and>
           sorted (map (\<lambda>r. name (snd r)) rows)" by blast
  from r o t n a listing_by_author_example show ?thesis by blast
qed

section \<open>The search filter\<close>


lemma like_char_refl: "like_char c c"
  by (simp add: like_char_def)

lemma like_percent_Nil: "like (CHR ''%'' # P) [] = like P []"
  by simp

lemma like_skip: "like P t \<Longrightarrow> like (CHR ''%'' # P) (u @ t)"
proof (induction u)
  case Nil
  then show ?case by (cases t) simp_all
next
  case (Cons x u)
  then show ?case by simp
qed

lemma like_any: "like ''%'' t"
  by (induction t) simp_all

lemma like_prefix_self: "like (s @ ''%'') (s @ r)"
proof (induction s)
  case Nil
  show ?case using like_any [of r] by simp
next
  case (Cons p s)
  show ?case
  proof (cases "p = CHR ''%''")
    case True
    have "like (CHR ''%'' # s @ ''%'') ([CHR ''%''] @ (s @ r))"
      by (rule like_skip) (rule Cons.IH)
    then show ?thesis using True by simp
  next
    case False
    then show ?thesis using Cons.IH by (simp add: like_char_refl)
  qed
qed

lemma nul_not_percent: "CHR ''%'' \<noteq> CHR 0x00"
  by simp

lemma c_string_no_nul: "CHR 0x00 \<notin> set s \<Longrightarrow> c_string s = s"
  by (simp add: c_string_def takeWhile_eq_all_conv) metis

lemma c_string_pattern: "CHR 0x00 \<notin> set s \<Longrightarrow> c_string (like_pattern s) = like_pattern s"
  by (rule c_string_no_nul) (auto simp: like_pattern_def)

lemma like_pattern_literal: "sublist s t \<Longrightarrow> like (like_pattern s) t"
proof -
  assume "sublist s t"
  then obtain u r where t: "t = u @ s @ r" by (auto simp: sublist_def)
  have "like (CHR ''%'' # s @ ''%'') (u @ (s @ r))"
    by (rule like_skip) (rule like_prefix_self)
  then show ?thesis by (simp add: like_pattern_def t)
qed

lemma contains_literal:
  "CHR 0x00 \<notin> set s \<Longrightarrow> sublist s (c_string t) \<Longrightarrow> contains t s"
  by (simp add: contains_def c_string_pattern like_pattern_literal)

lemma ord_lt_256: "ord c < 256"
  by (simp add: ord_def)

lemma ord_inj: "ord a = ord b \<Longrightarrow> a = b"
  by (simp add: ord_def)

lemma like_char_plain: "plain p \<Longrightarrow> like_char p c \<longleftrightarrow> p = c"
proof
  assume pl: "plain p" and lc: "like_char p c"
  show "p = c"
  proof (rule ccontr)
    assume ne: "p \<noteq> c"
    with lc have eq: "ascii_lower p = ascii_lower c" by (simp add: like_char_def)
    from pl have lp: "ascii_lower p = p" by (auto simp: ascii_lower_def plain_def Let_def)
    show False
    proof (cases "65 \<le> ord c \<and> ord c \<le> 90")
      case True
      then have "ord (ascii_lower c) = ord c + 32"
        by (simp add: ascii_lower_def Let_def ord_def)
      with eq lp have "ord p = ord c + 32" by simp
      with True pl show False by (simp add: plain_def)
    next
      case False
      then have "ascii_lower c = c" by (auto simp: ascii_lower_def Let_def)
      with eq lp ne show False by simp
    qed
  qed
next
  assume "p = c"
  then show "like_char p c" by (simp add: like_char_refl)
qed

lemma like_plain_prefix: "\<forall>c\<in>set s. plain c \<Longrightarrow> like (s @ ''%'') t \<longleftrightarrow> prefix s t"
proof (induction s arbitrary: t)
  case Nil
  then show ?case by (simp add: like_any)
next
  case (Cons p s)
  then have pl: "plain p" and IH: "\<And>t. like (s @ ''%'') t \<longleftrightarrow> prefix s t" by simp_all
  from pl have np: "p \<noteq> CHR ''%''" "p \<noteq> CHR ''_''" by (simp_all add: plain_def)
  show ?case
  proof (cases t)
    case Nil
    then show ?thesis using np by simp
  next
    case (Cons c cs)
    then show ?thesis using np IH like_char_plain [OF pl] by auto
  qed
qed

lemma like_pattern_plain:
  "\<forall>c\<in>set s. plain c \<Longrightarrow> like (like_pattern s) t \<longleftrightarrow> sublist s t"
proof (induction t)
  case Nil
  then show ?case using like_plain_prefix [of s "[]"] by (simp add: like_pattern_def)
next
  case (Cons c cs)
  have "like (like_pattern s) (c # cs) \<longleftrightarrow> like (s @ ''%'') (c # cs) \<or> like (like_pattern s) cs"
    by (simp add: like_pattern_def)
  then show ?case using Cons like_plain_prefix [of s "c # cs"]
    by (simp add: sublist_Cons_right)
qed

lemma plain_no_nul: "\<forall>c\<in>set s. plain c \<Longrightarrow> CHR 0x00 \<notin> set s"
  by (auto simp: plain_def)

lemma contains_plain:
  "\<forall>c\<in>set s. plain c \<Longrightarrow> contains t s \<longleftrightarrow> sublist s (c_string t)"
  by (simp add: contains_def c_string_pattern [OF plain_no_nul] like_pattern_plain)

lemma order_by_desc_set: "set (order_by_desc key rows) = set rows"
  by (simp add: order_by_desc_def)

lemma search_filter_set:
  "set (search_filter st s rows) =
     {b \<in> set rows. contains (title b) s \<or> contains (content b) s \<or>
        (\<exists>a\<in>set (authors st). a_id a = author_id b \<and> contains (name a) s)}"
  by (auto simp: search_filter_def author_has_def list_ex_iff)

lemma search_filter_literal:
  assumes "CHR 0x00 \<notin> set s" and "b \<in> set rows"
    and "sublist s (c_string (title b)) \<or> sublist s (c_string (content b)) \<or>
         (\<exists>a\<in>set (authors st). a_id a = author_id b \<and> sublist s (c_string (name a)))"
  shows "b \<in> set (search_filter st s rows)"
  using assms(2,3) contains_literal [OF assms(1)] unfolding search_filter_set by blast

lemma search_filter_plain:
  assumes "\<forall>c\<in>set s. plain c"
  shows "set (search_filter st s rows) =
     {b \<in> set rows. sublist s (c_string (title b)) \<or> sublist s (c_string (content b)) \<or>
        (\<exists>a\<in>set (authors st). a_id a = author_id b \<and> sublist s (c_string (name a)))}"
  unfolding search_filter_set by (simp add: contains_plain [OF assms])

lemma search_filter_excerpt:
  "search_filter st s (map (\<lambda>b. b\<lparr>excerpt := e b\<rparr>) rows) =
   map (\<lambda>b. b\<lparr>excerpt := e b\<rparr>) (search_filter st s rows)"
  by (induction rows) (simp_all add: search_filter_def author_has_def)

lemma run_search_excerpt:
  "run_search st s (map (\<lambda>b. b\<lparr>excerpt := e b\<rparr>) rows) =
   map_option (map (\<lambda>b. b\<lparr>excerpt := e b\<rparr>)) (run_search st s rows)"
  by (simp add: run_search_def search_filter_excerpt)

lemma run_search_None: "run_search st s rows = None \<longleftrightarrow> rows \<noteq> [] \<and> too_complex s"
  by (simp add: run_search_def)

lemma run_search_Some:
  "run_search st s rows = Some sel \<Longrightarrow> sel = search_filter st s rows"
  by (auto simp: run_search_def split: if_splits)

lemma blogs_list_search:
  "strip v \<noteq> [] \<Longrightarrow>
   mset (blogs_list st None (Some v)) =
     mset (case run_search st (strip v) (blogs st) of None \<Rightarrow> [] | Some sel \<Rightarrow> sel)"
  by (simp add: blogs_list_def Let_def apply_sorting_def order_by_desc_mset split: option.splits)

lemma search_blogs_None:
  "search_blogs st s None = None \<longleftrightarrow>
     (\<exists>b\<in>set (blogs st). published b \<and> (\<exists>a\<in>set (authors st). a_id a = author_id b)) \<and>
     too_complex s"
proof -
  have "list_ex (\<lambda>(b, a). published b) (join_author st (blogs st)) \<longleftrightarrow>
        (\<exists>b\<in>set (blogs st). published b \<and> (\<exists>a\<in>set (authors st). a_id a = author_id b))"
    unfolding list_ex_iff using join_author_set [of _ _ st "blogs st"] by fast
  then show ?thesis by (simp add: search_blogs_def Let_def)
qed

lemma search_blogs_set:
  "search_blogs st s None = Some res \<Longrightarrow>
   set res =
     {b \<in> set (blogs st). published b \<and>
        (\<exists>a\<in>set (authors st). a_id a = author_id b \<and>
           (contains (title b) s \<or> contains (content b) s \<or> contains (name a) s))}"
proof -
  assume "search_blogs st s None = Some res"
  then have "res = map fst (order_by_desc (\<lambda>r. created_at (fst r))
                (filter (\<lambda>(b, a). (contains (title b) s \<or> contains (content b) s \<or>
                                    contains (name a) s) \<and> published b)
                   (join_author st (blogs st))))"
    by (auto simp: search_blogs_def Let_def split: if_splits)
  then show ?thesis
    by (auto simp: order_by_desc_set join_author_set image_iff) blast+
qed

text \<open>
  Claim C5, as the code has it. For a search string \<open>s\<close> (not empty once stripped) the query
  of the listing fails exactly when there is a row and the pattern \<open>'%' || s || '%'\<close> has
  more than 50000 bytes, and the route then lists nothing. Otherwise its filter selects
  exactly the blogs whose title, content or related author's name matches that pattern
  under SQLite's \<open>LIKE\<close>: ASCII letters match in either case, \<open>%\<close> and \<open>_\<close> inside \<open>s\<close> are
  wildcards, and pattern and column are read up to their first NUL character. When \<open>s\<close>
  has no NUL, every blog whose title, content or author's name contains \<open>s\<close> literally
  before any NUL of that field is selected, so a string found only in an author's name
  still selects that author's blogs; when \<open>s\<close> has moreover no \<open>%\<close>, no \<open>_\<close> and no ASCII
  letter the selection is exactly that literal containment. The stored excerpt plays no
  part: new excerpts leave the result as it is. \<open>Blog.search_blogs\<close> uses the same three
  tests on the joined rows, keeps only published blogs and raises the error of a pattern
  that is too long when a published blog with its author is stored.
\<close>

theorem search_selects:
  "(run_search st s rows = None \<longleftrightarrow> rows \<noteq> [] \<and> too_complex s) \<and>
   (\<forall>sel. run_search st s rows = Some sel \<longrightarrow>
      sel = search_filter st s rows \<and>
      set sel =
        {b \<in> set rows. contains (title b) s \<or> contains (content b) s \<or>
           (\<exists>a\<in>set (authors st). a_id a = author_id b \<and> contains (name a) s)} \<and>
      (CHR 0x00 \<notin> set s \<longrightarrow>
         (\<forall>b\<in>set rows.
            sublist s (c_string (title b)) \<or> sublist s (c_string (content b)) \<or>
            (\<exists>a\<in>set (authors st). a_id a = author_id b \<and> sublist s (c_string (name a))) \<longrightarrow>
            b \<in> set sel)) \<and>
      ((\<forall>c\<in>set s. plain c) \<longrightarrow>
         set sel =
           {b \<in> set rows. sublist s (c_string (title b)) \<or> sublist s (c_string (content b)) \<or>
              (\<exists>a\<in>set (authors st). a_id a = author_id b \<and> sublist s (c_string (name a)))})) \<and>
   run_search st s (map (\<lambda>b. b\<lparr>excerpt := e b\<rparr>) rows) =
     map_option (map (\<lambda>b. b\<lparr>excerpt := e b\<rparr>)) (run_search st s rows) \<and>
   (strip v \<noteq> [] \<longrightarrow>
      mset (blogs_list st None (Some v)) =
        mset (case run_search st (strip v) (blogs st) of None \<Rightarrow> [] | Some sel \<Rightarrow> sel)) \<and>
   (search_blogs st s None = None \<longleftrightarrow>
      (\<exists>b\<in>set (blogs st). published b \<and> (\<exists>a\<in>set (authors st). a_id a = author_id b)) \<and>
      too_complex s) \<and>
   (\<forall>res. search_blogs st s None = Some res \<longrightarrow>
      set res =
        {b \<in> set (blogs st). published b \<and>
           (\<exists>a\<in>set (authors st). a_id a = author_id b \<and>
              (contains (title b) s \<or> contains (content b) s \<or> contains (name a) s))})"
proof -
  have sel: "\<forall>sel. run_search st s rows = Some sel \<longrightarrow>
      sel = search_filter st s rows \<and>
      set sel =
        {b \<in> set rows. contains (title b) s \<or> contains (content b) s \<or>
           (\<exists>a\<in>set (authors st). a_id a = author_id b \<and> contains (name a) s)} \<and>
      (CHR 0x00 \<notin> set s \<longrightarrow>
         (\<forall>b\<in>set rows.
            sublist s (c_string (title b)) \<or> sublist s (c_string (content b)) \<or>
            (\<exists>a\<in>set (authors st). a_id a = author_id b \<and> sublist s (c_string (name a))) \<longrightarrow>
            b \<in> set sel)) \<and>
      ((\<forall>c\<in>set s. plain c) \<longrightarrow>
         set sel =
           {b \<in> set rows. sublist s (c_string (title b)) \<or> sublist s (c_string (content b)) \<or>
              (\<exists>a\<in>set (authors st). a_id a = author_id b \<and> sublist s (c_string (name a)))})"
  proof (intro allI impI)
    fix sel
    assume "run_search st s rows = Some sel"
    then have e: "sel = search_filter st s rows" by (rule run_search_Some)
    have lit: "CHR 0x00 \<notin> set s \<longrightarrow>
         (\<forall>b\<in>set rows.
            sublist s (c_string (title b)) \<or> sublist s (c_string (content b)) \<or>
            (\<exists>a\<in>set (authors st). a_id a = author_id b \<and> sublist s (c_string (name a))) \<longrightarrow>
            b \<in> set sel)"
      unfolding e using search_filter_literal [of s _ rows st] by blast
    have pl: "(\<forall>c\<in>set s. plain c) \<longrightarrow>
         set sel =
           {b \<in> set rows. sublist s (c_string (title b)) \<or> sublist s (c_string (content b)) \<or>
              (\<exists>a\<in>set (authors st). a_id a = author_id b \<and> sublist s (c_string (name a)))}"
      unfolding e using search_filter_plain [of s st rows] by blast
    show "sel = search_filter st s rows \<and>
      set sel =
        {b \<in> set rows. contains (title b) s \<or> contains (content b) s \<or>
           (\<exists>a\<in>set (authors st). a_id a = author_id b \<and> contains (name a) s)} \<and>
      (CHR 0x00 \<notin> set s \<longrightarrow>
         (\<forall>b\<in>set rows.
            sublist s (c_string (title b)) \<or> sublist s (c_string (content b)) \<or>
            (\<exists>a\<in>set (authors st). a_id a = author_id b \<and> sublist s (c_string (name a))) \<longrightarrow>
            b \<in> set sel)) \<and>
      ((\<forall>c\<in>set s. plain c) \<longrightarrow>
         set sel =
           {b \<in> set rows. sublist s (c_string (title b)) \<or> sublist s (c_string (content b)) \<or>
              (\<exists>a\<in>set (authors st). a_id a = author_id b \<and> sublist s (c_string (name a)))})"
      using e search_filter_set [of st s rows] lit pl by (simp only: simp_thms)
  qed
  have bl: "strip v \<noteq> [] \<longrightarrow>
      mset (blogs_list st None (Some v)) =
        mset (case run_search st (strip v) (blogs st) of None \<Rightarrow> [] | Some sel \<Rightarrow> sel)"
    using blogs_list_search [of v st] by blast
  have sb: "\<forall>res. search_blogs st s None = Some res \<longrightarrow>
      set res =
        {b \<in> set (blogs st). published b \<and>
           (\<exists>a\<in>set (authors st). a_id a = author_id b \<and>
              (contains (title b) s \<or> contains (content b) s \<or> contains (name a) s))}"
    using search_blogs_set [of st s] by blast
  show ?thesis
    using run_search_None [of st s rows] sel run_search_excerpt [of st s e rows] bl
      search_blogs_None [of st s] sb
    by (intro conjI)
qed

lemma search_smith: "map b_id (search_filter sample_store ''Smith'' (blogs sample_store)) = [1, 3, 4]"
  by code_simp

lemma search_comma: "map b_id (search_filter sample_store '', '' (blogs sample_store)) = [2, 3]"
  by code_simp

lemma search_nul_examples:
  "map b_id (search_filter sample_store [CHR 0x00] (blogs sample_store)) = [1, 2, 3, 4] \<and>
   search_filter sample_store ''Crossing'' [post5] = [] \<and>
   search_filter sample_store ''Zebra'' [post5] = [post5]"
  by code_simp

lemma utf8_len_replicate: "utf8_len (replicate n CHR ''a'') = int n"
  by (induction n) (simp_all add: utf8_len_def ord_def)

lemma search_too_long_example:
  "too_complex (replicate 49999 CHR ''a'') \<and>
   blogs_list sample_store None (Some (replicate 49999 CHR ''a'')) = []"
proof -
  have u: "utf8_len (like_pattern (replicate 49999 CHR ''a'')) = 50001"
    using utf8_len_replicate [of 49999] by (simp add: like_pattern_def utf8_len_def ord_def)
  then have t: "too_complex (replicate 49999 CHR ''a'')" by (simp add: too_complex_def)
  have "\<not> isspace CHR ''a''" by (simp add: isspace_def ord_def)
  then have "strip (replicate 49999 CHR ''a'') = replicate 49999 CHR ''a''"
    by (simp add: strip_def dropWhile_eq_self_iff)
  moreover have "blogs sample_store \<noteq> []" by (simp add: sample_store_def)
  ultimately show ?thesis using t by (simp add: blogs_list_def run_search_def Let_def)
qed

theorem search_selects_witness:
  "post1 \<in> set (blogs sample_store) \<and> bob \<in> set (authors sample_store) \<and>
   a_id bob = author_id post1 \<and> CHR 0x00 \<notin> set ''Smith'' \<and> \<not> too_complex ''Smith'' \<and>
   sublist ''Smith'' (c_string (name bob)) \<and>
   \<not> sublist ''Smith'' (title post1) \<and> \<not> sublist ''Smith'' (content post1) \<and>
   run_search sample_store ''Smith'' (blogs sample_store) =
     Some (search_filter sample_store ''Smith'' (blogs sample_store)) \<and>
   post1 \<in> set (search_filter sample_store ''Smith'' (blogs sample_store)) \<and>
   list_all plain '', '' \<and>
   run_search sample_store '', '' (blogs sample_store) =
     Some (search_filter sample_store '', '' (blogs sample_store)) \<and>
   set (search_filter sample_store '', '' (blogs sample_store)) =
     {b \<in> set (blogs sample_store).
        sublist '', '' (c_string (title b)) \<or> sublist '', '' (c_string (content b)) \<or>
        (\<exists>a\<in>set (authors sample_store). a_id a = author_id b \<and> sublist '', '' (c_string (name a)))} \<and>
   strip '' Smith '' \<noteq> [] \<and>
   mset (blogs_list sample_store None (Some '' Smith '')) =
     mset (case run_search sample_store (strip '' Smith '') (blogs sample_store) of
             None \<Rightarrow> [] | Some sel \<Rightarrow> sel)"
proof -
  have p: "post1 \<in> set (blogs sample_store)" by (simp add: sample_store_def)
  have b: "bob \<in> set (authors sample_store)" by (simp add: sample_store_def)
  have k: "a_id bob = author_id post1" by (simp add: bob_def post1_def)
  have z: "CHR 0x00 \<notin> set ''Smith''" by simp
  have tc: "\<not> too_complex ''Smith''" "\<not> too_complex '', ''" by code_simp+
  have n: "sublist ''Smith'' (c_string (name bob))" by code_simp
  have t: "\<not> sublist ''Smith'' (title post1)" by code_simp
  have c: "\<not> sublist ''Smith'' (content post1)" by code_simp
  have pl: "list_all plain '', ''" by code_simp
  then have pl': "\<forall>c\<in>set '', ''. plain c" by (simp add: list_all_iff)
  have st: "strip '' Smith '' \<noteq> []" by code_simp
  have r1: "run_search sample_store ''Smith'' (blogs sample_store) =
     Some (search_filter sample_store ''Smith'' (blogs sample_store))"
    using tc by (simp add: run_search_def)
  have r2: "run_search sample_store '', '' (blogs sample_store) =
     Some (search_filter sample_store '', '' (blogs sample_store))"
    using tc by (simp add: run_search_def)
  note th = search_selects [of sample_store "''Smith''" "blogs sample_store" _ "'' Smith ''"]
  note th2 = search_selects [of sample_store "'', ''" "blogs sample_store"]
  from th r1 z p b k n have sel: "post1 \<in> set (search_filter sample_store ''Smith'' (blogs sample_store))"
    by blast
  from th st have ms: "mset (blogs_list sample_store None (Some '' Smith '')) =
     mset (case run_search sample_store (strip '' Smith '') (blogs sample_store) of
             None \<Rightarrow> [] | Some sel \<Rightarrow> sel)" by blast
  from th2 r2 pl' have ex: "set (search_filter sample_store '', '' (blogs sample_store)) =
     {b \<in> set (blogs sample_store).
        sublist '', '' (c_string (title b)) \<or> sublist '', '' (c_string (content b)) \<or>
        (\<exists>a\<in>set (authors sample_store). a_id a = author_id b \<and> sublist '', '' (c_string (name a)))}"
    by blast
  from p b k z tc(1) n t c r1 sel pl r2 ex st ms show ?thesis by (intro conjI)
qed

text \<open>
  The claim as stated, with containment of the substring, fails: the search \<open>hello\<close> selects
  the post titled \<open>Hello World\<close>, and the search \<open>M_n\<close> selects the post titled \<open>Mango Jam\<close>,
  though neither string occurs in the title, the content or the author's name.
\<close>

theorem search_not_substring:
  "map b_id (blogs_list sample_store None (Some ''hello'')) = [2] \<and>
   b_id post2 = 2 \<and> author_id post2 = a_id alice \<and>
   \<not> sublist ''hello'' (title post2) \<and> \<not> sublist ''hello'' (content post2) \<and>
   \<not> sublist ''hello'' (name alice) \<and>
   map b_id (blogs_list sample_store None (Some ''M_n'')) = [4] \<and>
   b_id post4 = 4 \<and> author_id post4 = a_id bob \<and>
   \<not> sublist ''M_n'' (title post4) \<and> \<not> sublist ''M_n'' (content post4) \<and>
   \<not> sublist ''M_n'' (name bob)"
  by code_simp

section \<open>Related blogs\<close>

lemma order_by_desc_sorted_wrt:
  "sorted_wrt (\<lambda>x y. key y \<le> key x) (order_by_desc key rows)"
proof -
  have "sorted (map key (sort_key key (rev rows)))" by simp
  then have "sorted_wrt (\<lambda>x y. key x \<le> key y) (sort_key key (rev rows))"
    by (simp only: sorted_map)
  then show ?thesis
    by (simp add: order_by_desc_def sorted_wrt_rev)
qed

lemma get_related_blogs_props:
  "length (get_related_blogs st self limit) \<le> limit"
  "b \<in> set (get_related_blogs st self limit) \<Longrightarrow>
     b \<in> set (blogs st) \<and> author_id b = author_id self \<and> b_id b \<noteq> b_id self \<and> published b"
  "sorted_wrt (\<lambda>x y. created_at y \<le> created_at x) (get_related_blogs st self limit)"
proof -
  show "length (get_related_blogs st self limit) \<le> limit"
    by (simp add: get_related_blogs_def)
  show "b \<in> set (get_related_blogs st self limit) \<Longrightarrow>
     b \<in> set (blogs st) \<and> author_id b = author_id self \<and> b_id b \<noteq> b_id self \<and> published b"
    by (auto simp: get_related_blogs_def order_by_desc_set dest!: in_set_takeD)
  show "sorted_wrt (\<lambda>x y. created_at y \<le> created_at x) (get_related_blogs st self limit)"
    unfolding get_related_blogs_def
    by (intro sorted_wrt_take order_by_desc_sorted_wrt)
qed

lemma view_blog_related_props:
  "length (view_blog_related st blog i) \<le> 3"
  "b \<in> set (view_blog_related st blog i) \<Longrightarrow>
     b \<in> set (blogs st) \<and> author_id b = author_id blog \<and> b_id b \<noteq> i"
  "subseq (view_blog_related st blog i) (blogs st)"
proof -
  show "length (view_blog_related st blog i) \<le> 3"
    by (simp add: view_blog_related_def)
  show "b \<in> set (view_blog_related st blog i) \<Longrightarrow>
     b \<in> set (blogs st) \<and> author_id b = author_id blog \<and> b_id b \<noteq> i"
    by (auto simp: view_blog_related_def dest!: in_set_takeD)
  have "subseq (take 3 (filter (\<lambda>b. author_id b = author_id blog \<and> b_id b \<noteq> i) (blogs st)))
      (filter (\<lambda>b. author_id b = author_id blog \<and> b_id b \<noteq> i) (blogs st))"
    by (intro prefix_imp_subseq take_is_prefix)
  then show "subseq (view_blog_related st blog i) (blogs st)"
    unfolding view_blog_related_def
    by (rule subseq_order.order_trans) simp
qed

lemma view_blog_found:
  "view_blog st i = Some (blog, rel) \<Longrightarrow>
   blog \<in> set (blogs st) \<and> b_id blog = i \<and> rel = view_blog_related st blog i"
  by (auto simp: view_blog_def split: option.splits dest: find_Some_iff [THEN iffD1])

text \<open>
  Claim C6, as the code has it. \<open>Blog.get_related_blogs\<close> returns at most \<open>limit\<close> (3 by
  default) blogs, all published, by the same author and other than the current post, ordered
  by creation time, most recent first; the code names no second sort key, so the order of
  blogs created at the same time is that of the engine. The query inside \<open>view_blog\<close>
  returns at most 3 blogs by the same author other than the current post.
\<close>

theorem related_blogs:
  "length (get_related_blogs st self limit) \<le> limit \<and>
   (\<forall>b\<in>set (get_related_blogs st self limit).
      b \<in> set (blogs st) \<and> author_id b = author_id self \<and> b_id b \<noteq> b_id self \<and> published b) \<and>
   sorted_wrt (\<lambda>x y. created_at y \<le> created_at x) (get_related_blogs st self limit) \<and>
   length (view_blog_related st blog i) \<le> 3 \<and>
   (\<forall>b\<in>set (view_blog_related st blog i).
      b \<in> set (blogs st) \<and> author_id b = author_id blog \<and> b_id b \<noteq> i) \<and>
   (\<forall>found rel. view_blog st i = Some (found, rel) \<longrightarrow>
      found \<in> set (blogs st) \<and> b_id found = i \<and> rel = view_blog_related st found i)"
proof -
  have v: "\<forall>found rel. view_blog st i = Some (found, rel) \<longrightarrow>
      found \<in> set (blogs st) \<and> b_id found = i \<and> rel = view_blog_related st found i"
    using view_blog_found by blast
  have g: "\<forall>b\<in>set (get_related_blogs st self limit).
      b \<in> set (blogs st) \<and> author_id b = author_id self \<and> b_id b \<noteq> b_id self \<and> published b"
    using get_related_blogs_props(2) by blast
  have r: "\<forall>b\<in>set (view_blog_related st blog i).
      b \<in> set (blogs st) \<and> author_id b = author_id blog \<and> b_id b \<noteq> i"
    using view_blog_related_props(2) by blast
  show ?thesis
    using get_related_blogs_props(1,3) view_blog_related_props(1) g r v
    by (intro conjI)
qed

lemma related_example:
  "map b_id (get_related_blogs sample_store post1 3) = [3, 4] \<and>
   map b_id (view_blog_related sample_store post4 4) = [1, 3] \<and>
   view_blog sample_store 4 = Some (post4, [post1, post3])"
  by code_simp

theorem related_blogs_witness:
  "post3 \<in> set (get_related_blogs sample_store post1 3) \<and>
   author_id post3 = author_id post1 \<and> b_id post3 \<noteq> b_id post1 \<and> published post3 \<and>
   length (get_related_blogs sample_store post1 3) \<le> 3 \<and>
   post1 \<in> set (view_blog_related sample_store post4 4) \<and>
   author_id post1 = author_id post4 \<and> b_id post1 \<noteq> 4 \<and>
   view_blog sample_store 4 = Some (post4, [post1, post3]) \<and>
   [post1, post3] = view_blog_related sample_store post4 4"
proof -
  have g: "get_related_blogs sample_store post1 3 = [post3, post4]" by code_simp
  have v: "view_blog_related sample_store post4 4 = [post1, post3]" by code_simp
  have w: "view_blog sample_store 4 = Some (post4, [post1, post3])" by code_simp
  note th = related_blogs [of sample_store post1 3 post4 4]
  have m3: "post3 \<in> set (get_related_blogs sample_store post1 3)" by (simp add: g)
  have m1: "post1 \<in> set (view_blog_related sample_store post4 4)" by (simp add: v)
  from th m3 have a: "author_id post3 = author_id post1 \<and> b_id post3 \<noteq> b_id post1 \<and> published post3"
    by blast
  from th m1 have b: "author_id post1 = author_id post4 \<and> b_id post1 \<noteq> 4" by blast
  from th have l: "length (get_related_blogs sample_store post1 3) \<le> 3" by blast
  from th w have r: "[post1, post3] = view_blog_related sample_store post4 4" by blast
  from m3 a l m1 b w r show ?thesis by (intro conjI) blast+
qed

text \<open>
  The claim as stated fails on both queries. With \<open>newer_first\<close> the order it asks for (most
  recent first, equal creation times by descending id): the related blogs of post 1 are
  posts 3 and 4, created at the same tick and returned in ascending id; the related blogs
  that \<open>view_blog\<close> shows for post 4 are posts 1 and 3, the older one first, since its query
  has no \<open>ORDER BY\<close> and the rows come in the order of the scan.
\<close>

theorem related_blogs_not_newer_first:
  "\<not> sorted_wrt newer_first (get_related_blogs sample_store post1 3) \<and>
   \<not> sorted_wrt newer_first (view_blog_related sample_store post4 4)"
  by code_simp

section \<open>Dates\<close>

lemma ord_digit_char: "0 \<le> k \<Longrightarrow> k \<le> 9 \<Longrightarrow> ord (digit_char k) = nat (48 + k)"
  by (simp add: ord_def digit_char_def)

lemma is_digit_digit_char: "0 \<le> k \<Longrightarrow> k \<le> 9 \<Longrightarrow> is_digit (digit_char k)"
  by (simp add: is_digit_def ord_digit_char) linarith

lemma show_dec_small: "n < 10 \<Longrightarrow> show_dec n = [digit_char n]"
  by (subst show_dec.simps) simp

lemma show_dec_step:
  "10 \<le> n \<Longrightarrow> show_dec n = show_dec (n div 10) @ [digit_char (n mod 10)]"
  by (subst show_dec.simps) simp

lemma show_dec_digits: "0 \<le> n \<Longrightarrow> list_all is_digit (show_dec n)"
proof (induction n rule: show_dec.induct)
  case (1 n)
  show ?case
  proof (cases "n < 10")
    case True
    with "1.prems" show ?thesis by (simp add: show_dec_small is_digit_digit_char)
  next
    case False
    then have "0 \<le> n div 10" by simp
    with 1 False have "list_all is_digit (show_dec (n div 10))" by simp
    moreover have "is_digit (digit_char (n mod 10))"
      by (rule is_digit_digit_char) simp_all
    ultimately show ?thesis using False by (simp add: show_dec_step)
  qed
qed

lemma show_dec_length:
  "0 \<le> n \<Longrightarrow> n < 10 \<Longrightarrow> length (show_dec n) = 1"
  "10 \<le> n \<Longrightarrow> n < 100 \<Longrightarrow> length (show_dec n) = 2"
  "100 \<le> n \<Longrightarrow> n < 1000 \<Longrightarrow> length (show_dec n) = 3"
  "1000 \<le> n \<Longrightarrow> n < 10000 \<Longrightarrow> length (show_dec n) = 4"
proof -
  show l1: "\<And>n. 0 \<le> n \<Longrightarrow> n < 10 \<Longrightarrow> length (show_dec n) = 1"
    by (simp add: show_dec_small)
  show l2: "\<And>n. 10 \<le> n \<Longrightarrow> n < 100 \<Longrightarrow> length (show_dec n) = 2"
  proof -
    fix n :: int assume "10 \<le> n" "n < 100"
    then have "0 \<le> n div 10" "n div 10 < 10" by simp_all
    then show "length (show_dec n) = 2" using l1 \<open>10 \<le> n\<close> by (simp add: show_dec_step)
  qed
  show l3: "\<And>n. 100 \<le> n \<Longrightarrow> n < 1000 \<Longrightarrow> length (show_dec n) = 3"
  proof -
    fix n :: int assume "100 \<le> n" "n < 1000"
    then have "10 \<le> n div 10" "n div 10 < 100" by simp_all
    then show "length (show_dec n) = 3" using l2 \<open>100 \<le> n\<close> by (simp add: show_dec_step)
  qed
  show "\<And>n. 1000 \<le> n \<Longrightarrow> n < 10000 \<Longrightarrow> length (show_dec n) = 4"
  proof -
    fix n :: int assume "1000 \<le> n" "n < 10000"
    then have "100 \<le> n div 10" "n div 10 < 1000" by simp_all
    then show "length (show_dec n) = 4" using l3 \<open>1000 \<le> n\<close> by (simp add: show_dec_step)
  qed
qed

lemma is_digit_zero: "is_digit CHR ''0''"
  by (simp add: is_digit_def ord_def)

lemma zfill_digits: "list_all is_digit s \<Longrightarrow> list_all is_digit (zfill w s)"
  using is_digit_zero by (auto simp: zfill_def list_all_iff)

lemma zfill_length: "length s \<le> w \<Longrightarrow> length (zfill w s) = w"
  by (simp add: zfill_def)

lemma datetime_Some:
  "datetime y m d = Some dt \<Longrightarrow>
   year dt = y \<and> month dt = m \<and> day dt = d \<and>
   1 \<le> y \<and> y \<le> 9999 \<and> 1 \<le> m \<and> m \<le> 12 \<and> 1 \<le> d \<and> d \<le> 31"
  by (auto simp: datetime_def days_in_month_def split: if_splits)

lemma datetime_valid: "datetime y m d = Some dt \<Longrightarrow> valid_date dt"
  using datetime_Some [of y m d dt] by (simp add: valid_date_def)

lemma two_digits:
  assumes "1 \<le> n" "n \<le> 31"
  shows "length (zfill 2 (str_int n)) = 2 \<and> list_all is_digit (zfill 2 (str_int n))"
proof -
  have s: "str_int n = show_dec n" using assms by (simp add: str_int_def)
  have "length (show_dec n) \<le> 2"
  proof (cases "n < 10")
    case True
    then show ?thesis using show_dec_length(1) [of n] assms by simp
  next
    case False
    then show ?thesis using show_dec_length(2) [of n] assms by simp
  qed
  moreover have "list_all is_digit (show_dec n)" using assms by (intro show_dec_digits) simp
  ultimately show ?thesis by (simp add: s zfill_length zfill_digits)
qed

lemma pct_d_shape: "valid_date dt \<Longrightarrow> length (pct_d dt) = 2 \<and> list_all is_digit (pct_d dt)"
  unfolding pct_d_def by (rule two_digits) (simp_all add: valid_date_def)

lemma pct_m_shape: "valid_date dt \<Longrightarrow> length (pct_m dt) = 2 \<and> list_all is_digit (pct_m dt)"
  unfolding pct_m_def by (rule two_digits) (simp_all add: valid_date_def)

lemma pct_Y_digits: "valid_date dt \<Longrightarrow> list_all is_digit (pct_Y pad dt) \<and> pct_Y pad dt \<noteq> []"
proof -
  assume v: "valid_date dt"
  then have s: "str_int (year dt) = show_dec (year dt)" by (simp add: str_int_def valid_date_def)
  have d: "list_all is_digit (show_dec (year dt))"
    using v by (intro show_dec_digits) (simp add: valid_date_def)
  have "show_dec (year dt) \<noteq> []"
    by (subst show_dec.simps) simp
  then show ?thesis using d zfill_digits [of "show_dec (year dt)" 4]
    by (simp add: pct_Y_def s zfill_def)
qed

lemma year_length_le4:
  assumes "1 \<le> n" "n \<le> 9999"
  shows "length (show_dec n) \<le> 4"
proof -
  consider "n < 10" | "10 \<le> n \<and> n < 100" | "100 \<le> n \<and> n < 1000" | "1000 \<le> n"
    by linarith
  then show ?thesis
  proof cases
    case 1 then show ?thesis using show_dec_length(1) [of n] assms by simp
  next
    case 2 then show ?thesis using show_dec_length(2) [of n] by simp
  next
    case 3 then show ?thesis using show_dec_length(3) [of n] by simp
  next
    case 4 then show ?thesis using show_dec_length(4) [of n] assms by simp
  qed
qed

lemma pct_Y_four:
  assumes v: "valid_date dt" and p: "pad \<or> 1000 \<le> year dt"
  shows "length (pct_Y pad dt) = 4"
proof -
  from v have s: "str_int (year dt) = show_dec (year dt)" by (simp add: str_int_def valid_date_def)
  from v have r: "1 \<le> year dt" "year dt \<le> 9999" by (simp_all add: valid_date_def)
  show ?thesis
  proof (cases pad)
    case True
    then show ?thesis using year_length_le4 [OF r] by (simp add: pct_Y_def s zfill_length)
  next
    case False
    with p have "1000 \<le> year dt" by simp
    then show ?thesis using False show_dec_length(4) [of "year dt"] r by (simp add: pct_Y_def s)
  qed
qed

lemma strftime_dmy_shape:
  assumes v: "valid_date dt" and p: "pad \<or> 1000 \<le> year dt"
  shows "is_dd_mm_yyyy (strftime_dmy pad dt)"
proof -
  obtain a b where d: "pct_d dt = [a, b]" "is_digit a" "is_digit b"
    using pct_d_shape [OF v] by (cases "pct_d dt" rule: list.exhaust; cases "tl (pct_d dt)") auto
  obtain c e where m: "pct_m dt = [c, e]" "is_digit c" "is_digit e"
    using pct_m_shape [OF v] by (cases "pct_m dt" rule: list.exhaust; cases "tl (pct_m dt)") auto
  have y: "length (pct_Y pad dt) = 4" "list_all is_digit (pct_Y pad dt)"
    using pct_Y_four [OF v p] pct_Y_digits [OF v] by simp_all
  show ?thesis
    using d m y by (simp add: is_dd_mm_yyyy_def strftime_dmy_def)
qed

lemma strptime_valid: "strptime s fmt = Some dt \<Longrightarrow> valid_date dt"
  by (auto simp: strptime_def split: list.splits if_splits option.splits prod.splits
      dest: datetime_valid)

lemma parse_stored_valid: "parse_stored s = Some dt \<Longrightarrow> valid_date dt"
  by (auto simp: parse_stored_def split: list.splits option.splits dest: datetime_valid)

lemma pct_B_name: "valid_date dt \<Longrightarrow> pct_B dt \<in> set month_names"
proof -
  assume "valid_date dt"
  then have "nat (month dt) - 1 < 12" by (simp add: valid_date_def) linarith
  moreover have "length month_names = 12" by (simp add: month_names_def)
  ultimately show ?thesis unfolding pct_B_def by (metis nth_mem)
qed

lemma validate_date_unfold:
  "validate_date pad s =
     (case strptime s fmt_ymd of
        Some dt \<Rightarrow> Some (strftime_dmy pad dt)
      | None \<Rightarrow>
          (case strptime s fmt_dmy of
             Some dt \<Rightarrow> Some (strftime_dmy pad dt)
           | None \<Rightarrow>
               (case strptime s fmt_mdy of
                  Some dt \<Rightarrow> Some (strftime_dmy pad dt)
                | None \<Rightarrow> None)))"
  by (simp add: validate_date_def split: option.splits)

lemma validate_date_None:
  "validate_date pad s = None \<longleftrightarrow>
     strptime s fmt_ymd = None \<and> strptime s fmt_dmy = None \<and> strptime s fmt_mdy = None"
  by (simp add: validate_date_def split: option.splits)

lemma validate_date_examples:
  "validate_date pad ''2024-01-15'' = Some ''15-01-2024''"
  "validate_date pad ''15-01-2024'' = Some ''15-01-2024''"
  "validate_date pad ''01/15/2024'' = Some ''15-01-2024''"
  "validate_date pad ''not-a-date'' = None"
proof -
  have t: "validate_date True ''2024-01-15'' = Some ''15-01-2024''"
    "validate_date True ''15-01-2024'' = Some ''15-01-2024''"
    "validate_date True ''01/15/2024'' = Some ''15-01-2024''"
    "validate_date True ''not-a-date'' = None"
    by code_simp+
  have f: "validate_date False ''2024-01-15'' = Some ''15-01-2024''"
    "validate_date False ''15-01-2024'' = Some ''15-01-2024''"
    "validate_date False ''01/15/2024'' = Some ''15-01-2024''"
    "validate_date False ''not-a-date'' = None"
    by code_simp+
  show "validate_date pad ''2024-01-15'' = Some ''15-01-2024''"
    "validate_date pad ''15-01-2024'' = Some ''15-01-2024''"
    "validate_date pad ''01/15/2024'' = Some ''15-01-2024''"
    "validate_date pad ''not-a-date'' = None"
    using t f by (cases pad; simp)+
qed

lemma strptime_shape:
  "strptime s fmt = Some dt \<Longrightarrow>
   valid_date dt \<and> (pad \<or> 1000 \<le> year dt \<longrightarrow> is_dd_mm_yyyy (strftime_dmy pad dt))"
  using strptime_valid [of s fmt dt] strftime_dmy_shape [of dt pad] by blast

text \<open>
  What holds of the normalization on every input: \<open>validate_date\<close> tries the formats
  \<open>%Y-%m-%d\<close>, \<open>%d-%m-%Y\<close> and \<open>%m/%d/%Y\<close> in that order, gives the first successful
  parse back through \<open>strftime('%d-%m-%Y')\<close>, and gives \<open>None\<close> exactly when none of the
  three parses. What it gives back has the shape \<open>DD-MM-YYYY\<close> when the year is 1000 or
  later, or when the platform fills \<open>%Y\<close> with zeros. The four examples of the specification
  come out as stated.
\<close>

theorem validate_date_formats:
  "validate_date pad s =
     (case strptime s fmt_ymd of
        Some dt \<Rightarrow> Some (strftime_dmy pad dt)
      | None \<Rightarrow>
          (case strptime s fmt_dmy of
             Some dt \<Rightarrow> Some (strftime_dmy pad dt)
           | None \<Rightarrow>
               (case strptime s fmt_mdy of
                  Some dt \<Rightarrow> Some (strftime_dmy pad dt)
                | None \<Rightarrow> None))) \<and>
   (validate_date pad s = None \<longleftrightarrow>
      strptime s fmt_ymd = None \<and> strptime s fmt_dmy = None \<and> strptime s fmt_mdy = None) \<and>
   (\<forall>fmt dt. strptime s fmt = Some dt \<longrightarrow>
      valid_date dt \<and> (pad \<or> 1000 \<le> year dt \<longrightarrow> is_dd_mm_yyyy (strftime_dmy pad dt))) \<and>
   validate_date pad ''2024-01-15'' = Some ''15-01-2024'' \<and>
   validate_date pad ''15-01-2024'' = Some ''15-01-2024'' \<and>
   validate_date pad ''01/15/2024'' = Some ''15-01-2024'' \<and>
   validate_date pad ''not-a-date'' = None"
proof -
  have sh: "\<forall>fmt dt. strptime s fmt = Some dt \<longrightarrow>
      valid_date dt \<and> (pad \<or> 1000 \<le> year dt \<longrightarrow> is_dd_mm_yyyy (strftime_dmy pad dt))"
    using strptime_shape by blast
  show ?thesis
    using validate_date_unfold [of pad s] validate_date_None [of pad s] sh
      validate_date_examples [of pad]
    by (intro conjI)
qed

theorem validate_date_formats_witness:
  "strptime ''2024-02-29'' fmt_ymd = Some \<lparr>year = 2024, month = 2, day = 29\<rparr> \<and>
   (1000::int) \<le> year \<lparr>year = 2024, month = 2, day = 29\<rparr> \<and>
   valid_date \<lparr>year = 2024, month = 2, day = 29\<rparr> \<and>
   is_dd_mm_yyyy (strftime_dmy False \<lparr>year = 2024, month = 2, day = 29\<rparr>) \<and>
   validate_date False ''2024-02-29'' = Some ''29-02-2024'' \<and>
   strptime ''29/02/2024'' fmt_ymd = None \<and> strptime ''29/02/2024'' fmt_dmy = None \<and>
   strptime ''29/02/2024'' fmt_mdy = None \<and> validate_date False ''29/02/2024'' = None"
proof -
  have p: "strptime ''2024-02-29'' fmt_ymd = Some \<lparr>year = 2024, month = 2, day = 29\<rparr>"
    by code_simp
  have y: "(1000::int) \<le> year \<lparr>year = 2024, month = 2, day = 29\<rparr>" by simp
  have r: "strftime_dmy False \<lparr>year = 2024, month = 2, day = 29\<rparr> = ''29-02-2024''"
    by code_simp
  have n: "strptime ''29/02/2024'' fmt_ymd = None" "strptime ''29/02/2024'' fmt_dmy = None"
    "strptime ''29/02/2024'' fmt_mdy = None"
    by code_simp+
  note th = validate_date_formats [of False "''2024-02-29''"]
  note th2 = validate_date_formats [of False "''29/02/2024''"]
  from th p y have v: "valid_date \<lparr>year = 2024, month = 2, day = 29\<rparr>"
    and s: "is_dd_mm_yyyy (strftime_dmy False \<lparr>year = 2024, month = 2, day = 29\<rparr>)"
    by blast+
  from th p r have e: "validate_date False ''2024-02-29'' = Some ''29-02-2024''" by simp
  from th2 n have z: "validate_date False ''29/02/2024'' = None" by blast
  from p y v s e n z show ?thesis by (intro conjI)
qed

text \<open>
  Claim C2. Date normalization gives the first successful parse back in the canonical form
  \<open>DD-MM-YYYY\<close>, the form in which the model stores dates. The code does not where \<open>%Y\<close>
  is not filled with zeros (glibc): the year 5 is accepted by \<open>%Y-%m-%d\<close> and given back
  with one digit, which is not \<open>DD-MM-YYYY\<close>.
\<close>

theorem validate_date_short_year:
  "validate_date False ''0005-01-01'' = Some ''01-01-5'' \<and> \<not> is_dd_mm_yyyy ''01-01-5''"
  by code_simp

subsection \<open>What validation stores, the display renders\<close>

lemma digit_val_digit_char: "0 \<le> k \<Longrightarrow> k \<le> 9 \<Longrightarrow> digit_val (digit_char k) = k"
  by (simp add: digit_val_def ord_digit_char)

lemma is_digit_not_special:
  "is_digit c \<Longrightarrow> c \<noteq> CHR ''_'' \<and> c \<noteq> CHR ''-'' \<and> c \<noteq> CHR ''+'' \<and> \<not> int_space c"
  by (auto simp: is_digit_def int_space_def isspace_def ord_def Let_def)

lemma decimal_value_digits:
  "list_all is_digit s \<Longrightarrow> decimal_value s = foldl (\<lambda>acc c. 10 * acc + digit_val c) 0 s"
proof -
  assume "list_all is_digit s"
  then have "filter (\<lambda>c. c \<noteq> CHR ''_'') s = s"
    using is_digit_not_special by (auto simp: list_all_iff intro!: filter_True)
  then show ?thesis by (simp add: decimal_value_def)
qed

lemma decimal_value_snoc:
  "list_all is_digit s \<Longrightarrow> is_digit c \<Longrightarrow>
   decimal_value (s @ [c]) = 10 * decimal_value s + digit_val c"
  using decimal_value_digits [of "s @ [c]"] decimal_value_digits [of s] by simp

lemma decimal_value_show_dec: "0 \<le> n \<Longrightarrow> decimal_value (show_dec n) = n"
proof (induction n rule: show_dec.induct)
  case (1 n)
  show ?case
  proof (cases "n < 10")
    case True
    have "is_digit (digit_char n)" using True "1.prems" by (intro is_digit_digit_char) simp_all
    then have "decimal_value [digit_char n] = digit_val (digit_char n)"
      using decimal_value_digits [of "[digit_char n]"] by simp
    then show ?thesis using True "1.prems" by (simp add: show_dec_small digit_val_digit_char)
  next
    case False
    then have nn: "0 \<le> n div 10" by simp
    have IH: "decimal_value (show_dec (n div 10)) = n div 10" using 1 False nn by simp
    have d: "is_digit (digit_char (n mod 10))" by (rule is_digit_digit_char) simp_all
    have "decimal_value (show_dec n) = 10 * (n div 10) + digit_val (digit_char (n mod 10))"
      using False decimal_value_snoc [OF show_dec_digits [OF nn] d] IH
      by (simp add: show_dec_step)
    also have "digit_val (digit_char (n mod 10)) = n mod 10"
      by (rule digit_val_digit_char) simp_all
    finally show ?thesis by simp
  qed
qed

lemma digit_val_zero: "digit_val CHR ''0'' = 0"
  by (simp add: digit_val_def ord_def)

lemma foldl_zeros: "foldl (\<lambda>acc c. 10 * acc + digit_val c) 0 (replicate k CHR ''0'') = 0"
  by (induction k) (simp_all add: digit_val_zero)

lemma decimal_value_zfill:
  "list_all is_digit s \<Longrightarrow> decimal_value (zfill w s) = decimal_value s"
proof -
  assume d: "list_all is_digit s"
  have "decimal_value (zfill w s) = foldl (\<lambda>acc c. 10 * acc + digit_val c) 0 (zfill w s)"
    using zfill_digits [OF d] by (rule decimal_value_digits)
  also have "\<dots> = foldl (\<lambda>acc c. 10 * acc + digit_val c) 0 s"
    by (simp add: zfill_def foldl_zeros)
  finally show ?thesis using decimal_value_digits [OF d] by simp
qed

lemma digits_ok_digits: "s \<noteq> [] \<Longrightarrow> list_all is_digit s \<Longrightarrow> digits_ok s"
proof (induction s rule: digits_ok.induct)
  case 1
  then show ?case by simp
next
  case (2 c)
  then show ?case by simp
next
  case (3 c d cs)
  then have "is_digit d" by simp
  then have "d \<noteq> CHR ''_''" using is_digit_not_special by blast
  with 3 show ?case by simp
qed

lemma py_int_digits:
  assumes ne: "s \<noteq> []" and d: "list_all is_digit s"
  shows "py_int s = Some (decimal_value s)"
proof -
  from ne obtain c cs where s: "s = c # cs" by (cases s) auto
  have c: "is_digit c" using d s by simp
  then have h: "\<not> int_space c" "c \<noteq> CHR ''-''" "c \<noteq> CHR ''+''"
    using is_digit_not_special by blast+
  have l: "\<not> int_space (last s)"
    using d ne is_digit_not_special by (metis last_in_set list_all_iff)
  have "dropWhile int_space s = s" using h s by simp
  moreover have "dropWhile int_space (rev s) = rev s"
    using l ne by (cases "rev s") (auto simp: last_rev [symmetric] simp del: last_rev)
  ultimately have t: "rev (dropWhile int_space (rev (dropWhile int_space s))) = s" by simp
  have "py_int s = Some (decimal_value s)"
    unfolding py_int_def t Let_def
    using digits_ok_digits [OF ne d] h by (simp add: s del: digits_ok.simps)
  then show ?thesis .
qed

lemma show_dec_ne: "show_dec n \<noteq> []"
  by (subst show_dec.simps) simp

lemma py_int_show_dec: "0 \<le> n \<Longrightarrow> py_int (show_dec n) = Some n"
  using py_int_digits [OF show_dec_ne show_dec_digits, of n] decimal_value_show_dec [of n]
  by simp

lemma py_int_zfill: "0 \<le> n \<Longrightarrow> py_int (zfill w (show_dec n)) = Some n"
proof -
  assume n: "0 \<le> n"
  have "zfill w (show_dec n) \<noteq> []" by (simp add: zfill_def show_dec_ne)
  from py_int_digits [OF this zfill_digits [OF show_dec_digits [OF n]]]
  show ?thesis
    using decimal_value_zfill [OF show_dec_digits [OF n]] decimal_value_show_dec [OF n] by simp
qed

lemma split_on_none: "sep \<notin> set s \<Longrightarrow> split_on sep s = [s]"
proof -
  assume "sep \<notin> set s"
  then have "dropWhile (\<lambda>c. c \<noteq> sep) s = []" by auto
  then show ?thesis by (subst split_on.simps) (simp only: list.case)
qed

lemma split_on_first:
  assumes "sep \<notin> set a"
  shows "split_on sep (a @ sep # r) = a # split_on sep r"
proof -
  from assms have d: "dropWhile (\<lambda>c. c \<noteq> sep) (a @ sep # r) = sep # r"
    by (auto simp: dropWhile_append3)
  from assms have t: "takeWhile (\<lambda>c. c \<noteq> sep) (a @ sep # r) = a"
    by (auto simp: takeWhile_tail)
  show ?thesis by (subst split_on.simps) (simp only: d t list.case)
qed

lemma digits_no_hyphen: "list_all is_digit s \<Longrightarrow> CHR ''-'' \<notin> set s"
  using is_digit_not_special by (auto simp: list_all_iff)

lemma parse_stored_strftime:
  assumes dt: "datetime y m d = Some dt"
  shows "parse_stored (strftime_dmy pad dt) = Some dt"
proof -
  have v: "valid_date dt" using dt by (rule datetime_valid)
  from datetime_Some [OF dt] have f: "year dt = y" "month dt = m" "day dt = d"
    and r: "1 \<le> y" "1 \<le> m" "1 \<le> d" by simp_all
  have sd: "str_int d = show_dec d" and sm: "str_int m = show_dec m"
    and sy: "str_int y = show_dec y"
    using r by (simp_all add: str_int_def)
  have pd: "py_int (pct_d dt) = Some d"
    using r py_int_zfill [of d 2] by (simp add: pct_d_def f sd)
  have pm: "py_int (pct_m dt) = Some m"
    using r py_int_zfill [of m 2] by (simp add: pct_m_def f sm)
  have py: "py_int (pct_Y pad dt) = Some y"
    using r py_int_zfill [of y 4] py_int_show_dec [of y] by (simp add: pct_Y_def f sy)
  have hd: "CHR ''-'' \<notin> set (pct_d dt)" using pct_d_shape [OF v] digits_no_hyphen by blast
  have hm: "CHR ''-'' \<notin> set (pct_m dt)" using pct_m_shape [OF v] digits_no_hyphen by blast
  have hy: "CHR ''-'' \<notin> set (pct_Y pad dt)" using pct_Y_digits [OF v] digits_no_hyphen by blast
  have "split_on CHR ''-'' (strftime_dmy pad dt) = [pct_d dt, pct_m dt, pct_Y pad dt]"
    using split_on_first [OF hd, of "pct_m dt @ ''-'' @ pct_Y pad dt"]
      split_on_first [OF hm, of "pct_Y pad dt"] split_on_none [OF hy]
    by (simp add: strftime_dmy_def)
  then show ?thesis by (simp add: parse_stored_def pd pm py dt)
qed

lemma strptime_datetime: "strptime s fmt = Some dt \<Longrightarrow> \<exists>y m d. datetime y m d = Some dt"
  by (auto simp: strptime_def split: list.splits if_splits option.splits prod.splits)

lemma validate_date_renders:
  assumes "validate_date pad s = Some r"
  shows "\<exists>dt. r = strftime_dmy pad dt \<and> parse_stored r = Some dt \<and>
           formatted_date pad (b\<lparr>date := r\<rparr>) = strftime_long pad dt"
proof -
  from assms obtain fmt dt where p: "strptime s fmt = Some dt" and r: "r = strftime_dmy pad dt"
    by (auto simp: validate_date_def split: option.splits)
  from strptime_datetime [OF p] obtain y m d where "datetime y m d = Some dt" by blast
  then have "parse_stored r = Some dt" unfolding r by (rule parse_stored_strftime)
  then show ?thesis using r by (auto simp: formatted_date_def)
qed

lemma formatted_date_cases:
  "formatted_date pad b =
     (case parse_stored (date b) of Some dt \<Rightarrow> strftime_long pad dt | None \<Rightarrow> date b)"
  by (simp add: formatted_date_def)

lemma formatted_date_example: "formatted_date pad (b\<lparr>date := ''05-01-2024''\<rparr>) = ''January 05, 2024''"
proof -
  have p: "parse_stored ''05-01-2024'' = Some \<lparr>year = 2024, month = 1, day = 5\<rparr>"
    by code_simp
  have "strftime_long True \<lparr>year = 2024, month = 1, day = 5\<rparr> = ''January 05, 2024''"
    "strftime_long False \<lparr>year = 2024, month = 1, day = 5\<rparr> = ''January 05, 2024''"
    by code_simp+
  then have "strftime_long pad \<lparr>year = 2024, month = 1, day = 5\<rparr> = ''January 05, 2024''"
    by (cases pad) simp_all
  then show ?thesis by (simp add: formatted_date_def p)
qed

text \<open>
  Claim C9. For every stored date string \<open>formatted_date\<close> gives one of two results and
  never raises: when the string splits at its hyphens into a day, a month and a year that
  \<open>int\<close> and \<open>datetime\<close> accept, the month's name, a space, the day in two digits, a comma
  and a space, and the year; in every other case the stored string unchanged. Every
  \<open>%d-%m-%Y\<close> rendering of a date, hence every string that \<open>validate_date\<close> gives, is of
  the first kind.
\<close>

theorem formatted_date_total:
  "(formatted_date pad b = date b \<or>
    (\<exists>dt. parse_stored (date b) = Some dt \<and> valid_date dt \<and>
       formatted_date pad b = pct_B dt @ '' '' @ pct_d dt @ '', '' @ pct_Y pad dt \<and>
       pct_B dt \<in> set month_names \<and> length (pct_d dt) = 2 \<and> list_all is_digit (pct_d dt) \<and>
       list_all is_digit (pct_Y pad dt) \<and> pct_Y pad dt \<noteq> [])) \<and>
   (parse_stored (date b) = None \<longrightarrow> formatted_date pad b = date b) \<and>
   (\<forall>dt. parse_stored (date b) = Some dt \<longrightarrow>
      formatted_date pad b = pct_B dt @ '' '' @ pct_d dt @ '', '' @ pct_Y pad dt) \<and>
   (\<forall>y m d dt. datetime y m d = Some dt \<longrightarrow>
      formatted_date pad (b\<lparr>date := strftime_dmy pad dt\<rparr>) = strftime_long pad dt) \<and>
   (\<forall>s r. validate_date pad s = Some r \<longrightarrow>
      (\<exists>dt. r = strftime_dmy pad dt \<and>
         formatted_date pad (b\<lparr>date := r\<rparr>) = strftime_long pad dt)) \<and>
   formatted_date pad (b\<lparr>date := ''05-01-2024''\<rparr>) = ''January 05, 2024''"
proof -
  have rt: "\<forall>y m d dt. datetime y m d = Some dt \<longrightarrow>
      formatted_date pad (b\<lparr>date := strftime_dmy pad dt\<rparr>) = strftime_long pad dt"
    using parse_stored_strftime by (auto simp: formatted_date_def)
  have vr: "\<forall>s r. validate_date pad s = Some r \<longrightarrow>
      (\<exists>dt. r = strftime_dmy pad dt \<and>
         formatted_date pad (b\<lparr>date := r\<rparr>) = strftime_long pad dt)"
    using validate_date_renders [of pad _ _ b] by blast
  have n: "parse_stored (date b) = None \<longrightarrow> formatted_date pad b = date b"
    by (simp add: formatted_date_def)
  have s: "\<forall>dt. parse_stored (date b) = Some dt \<longrightarrow>
      formatted_date pad b = pct_B dt @ '' '' @ pct_d dt @ '', '' @ pct_Y pad dt"
    by (simp add: formatted_date_def strftime_long_def)
  have d: "formatted_date pad b = date b \<or>
    (\<exists>dt. parse_stored (date b) = Some dt \<and> valid_date dt \<and>
       formatted_date pad b = pct_B dt @ '' '' @ pct_d dt @ '', '' @ pct_Y pad dt \<and>
       pct_B dt \<in> set month_names \<and> length (pct_d dt) = 2 \<and> list_all is_digit (pct_d dt) \<and>
       list_all is_digit (pct_Y pad dt) \<and> pct_Y pad dt \<noteq> [])"
  proof (cases "parse_stored (date b)")
    case None
    then show ?thesis using n by simp
  next
    case (Some dt)
    have v: "valid_date dt" using Some by (rule parse_stored_valid)
    show ?thesis
      using Some v s pct_B_name [OF v] pct_d_shape [OF v] pct_Y_digits [OF v, of pad]
      by blast
  qed
  from d n s rt vr formatted_date_example [of pad b] show ?thesis by (intro conjI)
qed

theorem formatted_date_total_witness:
  "parse_stored (date post1) = Some \<lparr>year = 2024, month = 1, day = 1\<rparr> \<and>
   formatted_date False post1 = ''January 01, 2024'' \<and>
   parse_stored (date (post1\<lparr>date := ''2024-01-05''\<rparr>)) = None \<and>
   formatted_date False (post1\<lparr>date := ''2024-01-05''\<rparr>) = ''2024-01-05'' \<and>
   datetime 2024 2 29 = Some \<lparr>year = 2024, month = 2, day = 29\<rparr> \<and>
   formatted_date False (post1\<lparr>date := strftime_dmy False \<lparr>year = 2024, month = 2, day = 29\<rparr>\<rparr>)
     = ''February 29, 2024''"
proof -
  have p: "parse_stored (date post1) = Some \<lparr>year = 2024, month = 1, day = 1\<rparr>" by code_simp
  have r: "pct_B \<lparr>year = 2024, month = 1, day = 1\<rparr> @ '' '' @
      pct_d \<lparr>year = 2024, month = 1, day = 1\<rparr> @ '', '' @
      pct_Y False \<lparr>year = 2024, month = 1, day = 1\<rparr> = ''January 01, 2024''" by code_simp
  have q: "parse_stored (date (post1\<lparr>date := ''2024-01-05''\<rparr>)) = None" by code_simp
  from formatted_date_total [of False post1] p r
  have a: "formatted_date False post1 = ''January 01, 2024''" by simp
  from formatted_date_total [of False "post1\<lparr>date := ''2024-01-05''\<rparr>"] q
  have b: "formatted_date False (post1\<lparr>date := ''2024-01-05''\<rparr>) = ''2024-01-05''" by simp
  have dt: "datetime 2024 2 29 = Some \<lparr>year = 2024, month = 2, day = 29\<rparr>" by code_simp
  have l: "strftime_long False \<lparr>year = 2024, month = 2, day = 29\<rparr> = ''February 29, 2024''"
    by code_simp
  from formatted_date_total [of False post1] dt
  have "formatted_date False (post1\<lparr>date := strftime_dmy False \<lparr>year = 2024, month = 2, day = 29\<rparr>\<rparr>)
     = strftime_long False \<lparr>year = 2024, month = 2, day = 29\<rparr>" by blast
  then have c: "formatted_date False (post1\<lparr>date := strftime_dmy False \<lparr>year = 2024, month = 2, day = 29\<rparr>\<rparr>)
     = ''February 29, 2024''" by (simp only: l)
  from p a q b dt c show ?thesis by (intro conjI)
qed

section \<open>Submitting a blog\<close>



















end
